theory Spec2Isabelle
  imports Main "HOL-Library.Sublist"
begin

section \<open>Strings\<close>

text \<open>
  A Go string is a sequence of bytes; \<^typ>\<open>string\<close> is a list of 8-bit characters.
  The helpers of package \<^verbatim>\<open>strings\<close> that the source calls are written out on lists.
\<close>

text \<open>\<^verbatim>\<open>strings.Contains(s, substr)\<close>.\<close>

fun strings_Contains :: "string \<Rightarrow> string \<Rightarrow> bool" where
  "strings_Contains [] substr = (substr = [])"
| "strings_Contains (c # s) substr = (prefix substr (c # s) \<or> strings_Contains s substr)"

section \<open>Errors\<close>

text \<open>
  Go error values. The sentinels the source tests for (\<^verbatim>\<open>io.EOF\<close>,
  \<^verbatim>\<open>io.ErrUnexpectedEOF\<close>, \<^verbatim>\<open>syscall.EPIPE\<close>), the two errors a context
  reports, \<^verbatim>\<open>errors.New(msg)\<close>, and an error with a message of its own that wraps
  another one (its \<^verbatim>\<open>Unwrap\<close> returns the inner error).
\<close>

datatype error =
    EOF
  | ErrUnexpectedEOF
  | EPIPE
  | Canceled
  | DeadlineExceeded
  | ErrorString string
  | Wrapped string error

text \<open>\<^verbatim>\<open>err.Error()\<close>.\<close>

fun Error :: "error \<Rightarrow> string" where
  "Error EOF = ''EOF''"
| "Error ErrUnexpectedEOF = ''unexpected EOF''"
| "Error EPIPE = ''broken pipe''"
| "Error Canceled = ''context canceled''"
| "Error DeadlineExceeded = ''context deadline exceeded''"
| "Error (ErrorString msg) = msg"
| "Error (Wrapped msg inner) = msg"

text \<open>\<^verbatim>\<open>errors.Is(err, target)\<close>: equality somewhere along the chain of wrapped errors.\<close>

fun errors_Is :: "error \<Rightarrow> error \<Rightarrow> bool" where
  "errors_Is (Wrapped msg inner) target = (Wrapped msg inner = target \<or> errors_Is inner target)"
| "errors_Is err target = (err = target)"

text \<open>\<^verbatim>\<open>shouldRedialForError\<close> (transport.go, lines 122-135).\<close>

definition shouldRedialForError :: "error \<Rightarrow> bool" where
  "shouldRedialForError err =
     (if errors_Is err EOF then True
      else if errors_Is err ErrUnexpectedEOF then True
      else if errors_Is err EPIPE then True
      else if strings_Contains (Error err) ''no renegotiation'' then True
      else False)"

section \<open>Requests and responses\<close>

text \<open>
  The fields of \<^verbatim>\<open>http.Request\<close> and \<^verbatim>\<open>http.Response\<close> that the transports
  read. A body is \<^verbatim>\<open>nil\<close>, \<^verbatim>\<open>http.NoBody\<close>, some other reader (named by a number),
  or a \<^verbatim>\<open>bodyWithContext\<close> around a body. A context is named by a number.
  \<^verbatim>\<open>GetBody\<close> is \<^verbatim>\<open>nil\<close> (\<open>None\<close>) or a function, which is modelled by the body it
  would hand out.
\<close>

type_synonym ctx = nat

datatype body =
    NilBody
  | NoBody
  | ReaderBody nat
  | BodyWithContext body ctx

record request =
  Method :: string
  Body :: body
  GetBody :: "body option"
  Header :: "string \<rightharpoonup> string list"
  Ctx :: ctx

record response =
  StatusCode :: nat
  RespBody :: body

text \<open>
  \<^verbatim>\<open>Header.Get(key)\<close>: the first value stored under the canonical form of the key, and
  the empty string when there is none. The two keys the source asks for are already in
  canonical form, so the lookup uses the key as it is.
\<close>

definition Header_Get :: "(string \<rightharpoonup> string list) \<Rightarrow> string \<Rightarrow> string" where
  "Header_Get h key = (case h key of None \<Rightarrow> [] | Some [] \<Rightarrow> [] | Some (v # vs) \<Rightarrow> v)"

text \<open>\<^verbatim>\<open>requestIsReplayable\<close> (transport.go, lines 139-153).\<close>

definition requestIsReplayable :: "request \<Rightarrow> bool" where
  "requestIsReplayable r =
     (if Body r = NilBody \<or> Body r = NoBody \<or> GetBody r \<noteq> None then
        (if Method r \<in> {''GET'', ''HEAD'', ''OPTIONS'', ''TRACE''} then True
         else if Header_Get (Header r) ''Idempotency-Key'' \<noteq> []
                 \<or> Header_Get (Header r) ''X-Idempotency-Key'' \<noteq> [] then True
         else False)
      else False)"

section \<open>The world the transports act on\<close>

text \<open>
  The transports talk to the network, close connections and write log lines. The model
  passes a world along: \<open>env\<close> is the state of everything outside the program (the
  network, the peers, the contexts), which only the operations of the environment read
  and change; \<open>trace\<close> lists, in order, what the program itself did.
\<close>

type_synonym conn = nat

datatype event =
    EvLog string string
  | EvClose conn
  | EvWrite conn
  | EvReadResponse conn

record 'e world =
  env :: 'e
  trace :: "event list"

text \<open>\<^verbatim>\<open>logVerbose(category, format, ...)\<close>: the call is recorded with its category and format.\<close>

definition logVerbose :: "string \<Rightarrow> string \<Rightarrow> 'e world \<Rightarrow> 'e world" where
  "logVerbose category format w = w\<lparr>trace := trace w @ [EvLog category format]\<rparr>"

text \<open>An \<^verbatim>\<open>http.RoundTripper\<close>: it returns a response or an error, and changes the world.\<close>

type_synonym 'e RoundTripper = "request \<Rightarrow> 'e world \<Rightarrow> (error + response) \<times> 'e world"

section \<open>RetryTransport\<close>

text \<open>
  \<^verbatim>\<open>RetryTransport.RoundTrip\<close> (transport.go, lines 271-282). \<open>retry_loop n\<close> is the
  loop \<^verbatim>\<open>for range n\<close>: it returns \<open>Some\<close> of what the \<^verbatim>\<open>return\<close> inside the loop
  returns, and \<open>None\<close> when the loop ends without returning.
\<close>

fun retry_loop ::
  "nat \<Rightarrow> 'e RoundTripper \<Rightarrow> request \<Rightarrow> 'e world \<Rightarrow> (error + response) option \<times> 'e world"
where
  "retry_loop 0 transport req w = (None, w)"
| "retry_loop (Suc n) transport req w =
     (case transport req w of
        (Inr resp, w') \<Rightarrow> (Some (Inr resp), w')
      | (Inl err, w') \<Rightarrow>
          if \<not> shouldRedialForError err then (Some (Inl err), w')
          else retry_loop n transport req (logVerbose ''redial'' ''retrying request for %v'' w'))"

definition RetryTransport_RoundTrip :: "'e RoundTripper \<Rightarrow> 'e RoundTripper" where
  "RetryTransport_RoundTrip transport req w =
     (if requestIsReplayable req then
        (case retry_loop 3 transport req w of
           (Some r, w') \<Rightarrow> (r, w')
         | (None, w') \<Rightarrow> transport req w')
      else transport req w)"

text \<open>
  To observe the calls of the inner transport, the environment gets a history that every
  call of the inner transport extends with its result: \<open>recorded transport\<close> behaves
  as \<open>transport\<close> on the first component of the environment and records in the second.
\<close>

definition with_env :: "'a \<Rightarrow> 'b world \<Rightarrow> 'a world" where
  "with_env e w = \<lparr>env = e, trace = trace w\<rparr>"

definition recorded :: "'e RoundTripper \<Rightarrow> ('e \<times> (error + response) list) RoundTripper" where
  "recorded transport req w =
     (case transport req (with_env (fst (env w)) w) of
        (r, w') \<Rightarrow> (r, with_env (env w', snd (env w) @ [r]) w'))"

definition history :: "('e \<times> (error + response) list) world \<Rightarrow> (error + response) list" where
  "history w = snd (env w)"

text \<open>An attempt that makes the loop go on: an error that is redial-worthy.\<close>

definition retryable_failure :: "error + response \<Rightarrow> bool" where
  "retryable_failure r = (case r of Inl err \<Rightarrow> shouldRedialForError err | Inr resp \<Rightarrow> False)"

text \<open>
  For the examples: an inner transport whose every attempt ends in \<^verbatim>\<open>io.EOF\<close>, a GET
  request without a body, and a world with an empty history.
\<close>

definition always_EOF :: "unit RoundTripper" where
  "always_EOF req w = (Inl EOF, w)"

definition get_request :: request where
  "get_request = \<lparr>Method = ''GET'', Body = NilBody, GetBody = None, Header = Map.empty, Ctx = 0\<rparr>"

definition fresh_world :: "(unit \<times> (error + response) list) world" where
  "fresh_world = \<lparr>env = ((), []), trace = []\<rparr>"

section \<open>Replayable requests\<close>

text \<open>
  The replayability rule in the words of the specification, where the idempotency marker
  counts as soon as the header is present.
\<close>

definition replayable_when_marker_present :: "request \<Rightarrow> bool" where
  "replayable_when_marker_present r =
     ((Body r = NilBody \<or> Body r = NoBody \<or> GetBody r \<noteq> None)
      \<and> (Method r \<in> {''GET'', ''HEAD'', ''OPTIONS'', ''TRACE''}
           \<or> ''Idempotency-Key'' \<in> dom (Header r)
           \<or> ''X-Idempotency-Key'' \<in> dom (Header r)))"

text \<open>A header that is present and whose first value is not the empty string.\<close>

definition has_nonempty_first_value :: "(string \<rightharpoonup> string list) \<Rightarrow> string \<Rightarrow> bool" where
  "has_nonempty_first_value h key = (\<exists>v vs. h key = Some (v # vs) \<and> v \<noteq> [])"

text \<open>A POST request without a body that carries \<^verbatim>\<open>Idempotency-Key\<close> with an empty value.\<close>

definition post_with_empty_marker :: request where
  "post_with_empty_marker =
     \<lparr>Method = ''POST'', Body = NilBody, GetBody = None,
      Header = [''Idempotency-Key'' \<mapsto> [[]]], Ctx = 0\<rparr>"

section \<open>connTransport\<close>

text \<open>
  A \<^verbatim>\<open>connTransport\<close> (transport.go, lines 90-96). A \<^verbatim>\<open>bufio.Reader\<close> is named by
  the connection it reads from. \<^verbatim>\<open>Redial\<close> is \<^verbatim>\<open>nil\<close> (\<open>None\<close>) or a function of the
  context that acts on the environment.
\<close>

datatype reader = NewReader conn

record 'e connTransport =
  Conn :: conn
  Redial :: "(ctx \<Rightarrow> 'e \<Rightarrow> (error + conn) \<times> 'e) option"
  br :: "reader option"
  used :: bool

text \<open>
  What the transport asks of the outside: whether a context is done (\<^verbatim>\<open>ctx.Err()\<close>,
  \<open>None\<close> while \<^verbatim>\<open>ctx.Done()\<close> is open), writing a request to a connection
  (\<^verbatim>\<open>req.Write\<close>), reading a response from a buffered reader (\<^verbatim>\<open>ReadResponse\<close>),
  and reading from a response body that is not a \<^verbatim>\<open>bodyWithContext\<close>. They are
  parameters of the model: each reads the environment and returns the next one.
\<close>

record 'e net =
  ctx_Err :: "ctx \<Rightarrow> 'e \<Rightarrow> error option"
  req_Write :: "request \<Rightarrow> conn \<Rightarrow> 'e \<Rightarrow> error option \<times> 'e"
  ReadResponse :: "reader \<Rightarrow> request \<Rightarrow> 'e \<Rightarrow> (error + response) \<times> 'e"
  ReadCloser_Read :: "body \<Rightarrow> 'e \<Rightarrow> (nat \<times> error option) \<times> 'e"

text \<open>The connection a reader reads from.\<close>

fun reader_conn :: "reader \<Rightarrow> conn" where
  "reader_conn (NewReader c) = c"

text \<open>
  \<^verbatim>\<open>connTransport.redial\<close> (transport.go, lines 182-194). The result is the returned
  error (\<open>None\<close> for \<^verbatim>\<open>nil\<close>), the transport and the world afterwards.
\<close>

definition redial ::
  "'e connTransport \<Rightarrow> ctx \<Rightarrow> 'e world \<Rightarrow> error option \<times> 'e connTransport \<times> 'e world"
where
  "redial ct c w =
     (case Redial ct of
        None \<Rightarrow> (Some (ErrorString ''no redial function provided''), ct, w)
      | Some f \<Rightarrow>
          (case f c (env w) of
             (Inl err, e') \<Rightarrow> (Some err, ct, w\<lparr>env := e'\<rparr>)
           | (Inr newConn, e') \<Rightarrow>
               (None,
                ct\<lparr>Conn := newConn, br := Some (NewReader newConn)\<rparr>,
                w\<lparr>env := e', trace := trace w @ [EvClose (Conn ct)]\<rparr>)))"

text \<open>
  \<^verbatim>\<open>connTransport.roundTrip\<close> (transport.go, lines 155-180): the check of the context,
  the write, the buffered reader made on first use, the read, and the body wrapped in a
  \<^verbatim>\<open>bodyWithContext\<close> when the read succeeded.
\<close>

definition roundTrip ::
  "'e net \<Rightarrow> 'e connTransport \<Rightarrow> request \<Rightarrow> 'e world
     \<Rightarrow> (error + response) \<times> 'e connTransport \<times> 'e world"
where
  "roundTrip net ct req w =
     (case ctx_Err net (Ctx req) (env w) of
        Some cerr \<Rightarrow> (Inl cerr, ct, w)
      | None \<Rightarrow>
          (case req_Write net req (Conn ct) (env w) of
             (Some werr, e1) \<Rightarrow>
               (Inl werr, ct, w\<lparr>env := e1, trace := trace w @ [EvWrite (Conn ct)]\<rparr>)
           | (None, e1) \<Rightarrow>
               (let rd = (case br ct of None \<Rightarrow> NewReader (Conn ct) | Some b \<Rightarrow> b);
                    ct1 = ct\<lparr>br := Some rd\<rparr>
                in case ReadResponse net rd req e1 of
                     (r, e2) \<Rightarrow>
                       (case r of
                          Inr resp \<Rightarrow> Inr (resp\<lparr>RespBody := BodyWithContext (RespBody resp) (Ctx req)\<rparr>)
                        | Inl err \<Rightarrow> Inl err,
                        ct1,
                        w\<lparr>env := e2,
                          trace := trace w @ [EvWrite (Conn ct), EvReadResponse (reader_conn rd)]\<rparr>))))"

text \<open>
  \<^verbatim>\<open>connTransport.RoundTrip\<close> (transport.go, lines 98-120). In the first branch the
  source tests \<^verbatim>\<open>err\<close>, the named result, which is still \<^verbatim>\<open>nil\<close> there, and not
  \<^verbatim>\<open>redialErr\<close>; the model writes the test as the source has it.
\<close>

definition RoundTrip ::
  "'e net \<Rightarrow> 'e connTransport \<Rightarrow> request \<Rightarrow> 'e world
     \<Rightarrow> (error + response) \<times> 'e connTransport \<times> 'e world"
where
  "RoundTrip net ct req w =
     (let err = (None :: error option);
          (ct1, w1) =
            (if used ct \<and> \<not> requestIsReplayable req then
               (case redial ct (Ctx req) w of
                  (redialErr, ct', w') \<Rightarrow>
                    if err \<noteq> None
                    then (ct', logVerbose ''redial'' ''Error redialing connection to %s: %v'' w')
                    else (ct', w'))
             else (ct, w));
          ct2 = ct1\<lparr>used := True\<rparr>
      in case roundTrip net ct2 req w1 of
           (Inr resp, ct3, w3) \<Rightarrow> (Inr resp, ct3, w3)
         | (Inl rerr, ct3, w3) \<Rightarrow>
             if shouldRedialForError rerr \<and> requestIsReplayable req then
               (case redial ct3 (Ctx req) w3 of
                  (None, ct4, w4) \<Rightarrow> roundTrip net ct4 req w4
                | (Some redialErr, ct4, w4) \<Rightarrow>
                    (Inl rerr, ct4,
                     logVerbose ''redial'' ''Error redialing connection to %s: %v'' w4))
             else (Inl rerr, ct3, w3))"

text \<open>\<^verbatim>\<open>bodyWithContext.Read\<close> (transport.go, lines 203-210), and a read of any body.\<close>

fun body_Read :: "'e net \<Rightarrow> body \<Rightarrow> 'e \<Rightarrow> (nat \<times> error option) \<times> 'e" where
  "body_Read net (BodyWithContext rc c) e =
     (case ctx_Err net c e of
        Some cerr \<Rightarrow> ((0, Some cerr), e)
      | None \<Rightarrow> body_Read net rc e)"
| "body_Read net b e = ReadCloser_Read net b e"

section \<open>Dialing with extra root certificates\<close>

text \<open>
  \<^verbatim>\<open>dialWithExtraRootCerts\<close> (transport.go, lines 39-76). The TLS dial, the
  verification of the server's certificate against a pool of roots (\<open>None\<close> for the
  system roots, as \<^verbatim>\<open>Roots: nil\<close> means) and the configured pool are parameters. The
  result comes with the connections the function closed. The variable \<^verbatim>\<open>err\<close> of the
  source is assigned by both verifications, and the final \<^verbatim>\<open>return nil, err\<close> reads
  its last value. The certificates that the server presented belong to the connection; a
  handshake that yields none, where \<^verbatim>\<open>PeerCertificates[0]\<close> would panic, is left out.
\<close>

type_synonym certPool = nat

type_synonym chains = "nat list list"

record tlsenv =
  DialWithDialer :: "string \<Rightarrow> string \<Rightarrow> error + conn"
  Verify :: "conn \<Rightarrow> certPool option \<Rightarrow> error + chains"
  ExtraRootCerts :: "certPool option"

definition dialWithExtraRootCerts ::
  "tlsenv \<Rightarrow> string \<Rightarrow> string \<Rightarrow> (error + conn) \<times> event list"
where
  "dialWithExtraRootCerts tls network addr =
     (case DialWithDialer tls network addr of
        Inl err \<Rightarrow> (Inl err, [])
      | Inr c \<Rightarrow>
          (case Verify tls c None of
             Inr verified \<Rightarrow> (Inr c, [])
           | Inl err \<Rightarrow>
               (case ExtraRootCerts tls of
                  None \<Rightarrow> (Inl err, [EvClose c])
                | Some pool \<Rightarrow>
                    (case Verify tls c (Some pool) of
                       Inr verified \<Rightarrow> (Inr c, [])
                     | Inl err \<Rightarrow> (Inl err, [EvClose c])))))"

text \<open>
  A server whose chain fails against the system roots with one error and against the
  extra pool with another.
\<close>

definition unknown_authority :: error where
  "unknown_authority = ErrorString ''x509: certificate signed by unknown authority''"

definition expired :: error where
  "expired = ErrorString ''x509: certificate has expired or is not yet valid''"

definition failing_tls :: tlsenv where
  "failing_tls =
     \<lparr>DialWithDialer = (\<lambda>network addr. Inr 7),
      Verify = (\<lambda>c roots. case roots of None \<Rightarrow> Inl unknown_authority | Some pool \<Rightarrow> Inl expired),
      ExtraRootCerts = Some 1\<rparr>"

section \<open>Examples of networks\<close>

text \<open>
  A network where nothing fails and no context is ever done: every write succeeds and
  every read yields a response with status 200.
\<close>

definition ok_response :: response where
  "ok_response = \<lparr>StatusCode = 200, RespBody = ReaderBody 0\<rparr>"

definition quiet_net :: "unit net" where
  "quiet_net =
     \<lparr>ctx_Err = (\<lambda>c e. None),
      req_Write = (\<lambda>req c e. (None, e)),
      ReadResponse = (\<lambda>rd req e. (Inr ok_response, e)),
      ReadCloser_Read = (\<lambda>b e. ((0, Some EOF), e))\<rparr>"

text \<open>
  A network whose environment says whether the context has been cancelled. A read of the
  underlying body blocks; while it is blocked the context is cancelled; then five bytes
  arrive and the read returns them.
\<close>

definition cancelling_net :: "bool net" where
  "cancelling_net =
     \<lparr>ctx_Err = (\<lambda>c e. if e then Some Canceled else None),
      req_Write = (\<lambda>req c e. (None, e)),
      ReadResponse = (\<lambda>rd req e. (Inr ok_response, e)),
      ReadCloser_Read = (\<lambda>b e. ((5, None), True))\<rparr>"

text \<open>A POST request with a body that cannot be replayed, and a session that was used.\<close>

definition post_request :: request where
  "post_request =
     \<lparr>Method = ''POST'', Body = ReaderBody 1, GetBody = None, Header = Map.empty, Ctx = 0\<rparr>"

definition used_session :: "'e connTransport" where
  "used_session = \<lparr>Conn = 1, Redial = None, br = Some (NewReader 1), used = True\<rparr>"

section \<open>Reading a trace\<close>

text \<open>The log lines in a trace.\<close>

fun is_EvLog :: "event \<Rightarrow> bool" where
  "is_EvLog (EvLog category format) = True"
| "is_EvLog ev = False"

section \<open>More of package strings\<close>

text \<open>
  The bytes below \<^verbatim>\<open>utf8.RuneSelf\<close> (\<^verbatim>\<open>0x80\<close>) are the ASCII characters, and the
  lowering of an ASCII byte maps the capital letters to their small letters and keeps
  every other byte: \<^verbatim>\<open>c += 'a' - 'A'\<close> for \<^verbatim>\<open>'A' <= c && c <= 'Z'\<close>.
\<close>

definition is_ascii :: "char \<Rightarrow> bool" where
  "is_ascii c = (\<not> digit7 c)"

definition lower_byte :: "char \<Rightarrow> char" where
  "lower_byte c =
     (case map_of (zip ''ABCDEFGHIJKLMNOPQRSTUVWXYZ'' ''abcdefghijklmnopqrstuvwxyz'') c of
        Some l \<Rightarrow> l
      | None \<Rightarrow> c)"

text \<open>
  \<^verbatim>\<open>strings.Index(s, sep)\<close> and \<^verbatim>\<open>strings.LastIndex(s, sep)\<close> for a separator of one
  byte, which is all the source passes (\<^verbatim>\<open>":"\<close>, \<^verbatim>\<open>"/"\<close>, \<^verbatim>\<open>"."\<close>); \<open>None\<close> is
  Go's \<^verbatim>\<open>-1\<close>.
\<close>

definition strings_Index :: "string \<Rightarrow> char \<Rightarrow> nat option" where
  "strings_Index s sep =
     (if sep \<in> set s then Some (length (takeWhile (\<lambda>c. c \<noteq> sep) s)) else None)"

definition strings_LastIndex :: "string \<Rightarrow> char \<Rightarrow> nat option" where
  "strings_LastIndex s sep =
     (if sep \<in> set s then Some (length s - 1 - length (takeWhile (\<lambda>c. c \<noteq> sep) (rev s)))
      else None)"

text \<open>\<^verbatim>\<open>strings.Split(s, sep)\<close> for a separator of one byte, and \<^verbatim>\<open>strings.Join\<close>.\<close>

fun strings_Split :: "string \<Rightarrow> char \<Rightarrow> string list" where
  "strings_Split [] sep = [[]]"
| "strings_Split (c # s) sep =
     (if c = sep then [] # strings_Split s sep
      else (case strings_Split s sep of
              [] \<Rightarrow> [[c]]
            | piece # pieces \<Rightarrow> (c # piece) # pieces))"

fun strings_Join :: "string list \<Rightarrow> string \<Rightarrow> string" where
  "strings_Join [] sep = []"
| "strings_Join [piece] sep = piece"
| "strings_Join (piece # pieces) sep = piece @ sep @ strings_Join pieces sep"

text \<open>\<^verbatim>\<open>strings.Replace(s, " ", "+", -1)\<close>: every space becomes a plus sign.\<close>

definition spaces_to_plus :: "string \<Rightarrow> string" where
  "spaces_to_plus s = map (\<lambda>c. if c = CHR '' '' then CHR ''+'' else c) s"

section \<open>Rules, and what the matchers take from outside\<close>

text \<open>
  Modelled from the spec: the declaration of the type \<^verbatim>\<open>rule\<close> and of its kinds is not
  in the source files at hand. The source reads the fields \<^verbatim>\<open>t\<close> and \<^verbatim>\<open>content\<close> of a
  rule and uses rules as map keys; \<^verbatim>\<open>AddRule\<close> names the five kinds that the
  specification lists, and \<open>otherRule\<close> stands for any further kind.
\<close>

datatype ruleType = urlMatch | urlRegex | hostRegex | pathRegex | queryRegex | otherRule

record rule =
  t :: ruleType
  content :: string

type_synonym tally = "rule \<rightharpoonup> int"

text \<open>
  The functions from other packages and files, as parameters of the model:
  \<^verbatim>\<open>regexp.Compile\<close> (\<open>None\<close> when the pattern compiles; the compiled expression is
  named by its pattern), \<^verbatim>\<open>Regexp.MatchString\<close> of the expression compiled from a
  pattern, \<^verbatim>\<open>regexStrings\<close> (a function of this repository whose file is not among the
  sources), \<^verbatim>\<open>punycode.DecodeString\<close>, \<^verbatim>\<open>url.QueryUnescape\<close>, and
  \<^verbatim>\<open>strings.Map(unicode.ToLower, s)\<close>, the lowering of a text rune by rune with the
  tables of Unicode.
\<close>

record lib =
  regexp_Compile :: "string \<Rightarrow> error option"
  MatchString :: "string \<Rightarrow> string \<Rightarrow> bool"
  regexStrings :: "string \<Rightarrow> error + string list"
  punycode_DecodeString :: "string \<Rightarrow> error + string"
  url_QueryUnescape :: "string \<Rightarrow> error + string"
  strings_Map_ToLower :: "string \<Rightarrow> string"

text \<open>
  \<^verbatim>\<open>strings.ToLower(s)\<close>, as the Go library has it: a text of ASCII bytes only is
  lowered byte by byte, and any other text goes to \<^verbatim>\<open>Map(unicode.ToLower, s)\<close>, which
  also lowers the capital letters beyond ASCII and writes U+FFFD for a byte that is not
  valid UTF-8.
\<close>

definition strings_ToLower :: "lib \<Rightarrow> string \<Rightarrow> string" where
  "strings_ToLower l s =
     (if list_all is_ascii s then map lower_byte s else strings_Map_ToLower l s)"

section \<open>The phrase list\<close>

text \<open>
  Modelled from the spec: \<^verbatim>\<open>phraseList\<close>, \<^verbatim>\<open>addPhrase\<close>, \<^verbatim>\<open>newPhraseScanner\<close> and
  \<^verbatim>\<open>scanByte\<close> are not among the sources. The specification says that \<^verbatim>\<open>addPhrase\<close>
  inserts a literal byte sequence, and that the scan feeds the automaton one byte at a
  time and invokes the callback for every registered phrase ending at the current
  position. The model keeps the registered phrases in a list and the bytes fed so far in
  the scanner; the failure links, and \<^verbatim>\<open>finalize\<close> that computes them, have no
  counterpart.
\<close>

type_synonym phraseList = "string list"

definition newPhraseList :: phraseList where
  "newPhraseList = []"

definition addPhrase :: "phraseList \<Rightarrow> string \<Rightarrow> phraseList" where
  "addPhrase pl p = (if p \<in> set pl then pl else pl @ [p])"

text \<open>
  Modelled from the spec: one step of the scanner. The state is the text fed so far and
  the state \<open>'s\<close> that the callback works on.
\<close>

definition scanByte ::
  "phraseList \<Rightarrow> (string \<Rightarrow> 's \<Rightarrow> 's) \<Rightarrow> string \<times> 's \<Rightarrow> char \<Rightarrow> string \<times> 's"
where
  "scanByte pl callback st c =
     (let fed = fst st @ [c]
      in (fed, foldl (\<lambda>acc p. callback p acc) (snd st) (filter (\<lambda>p. suffix p fed) pl)))"

text \<open>
  Modelled from the spec: \<^verbatim>\<open>minLen\<close> of the set of strings that \<^verbatim>\<open>regexStrings\<close>
  returns, the length of its shortest member; a pattern with no extractable literal
  (no string at all) counts as a requirement of length zero.
\<close>

definition minLen :: "string list \<Rightarrow> nat" where
  "minLen ss = (case ss of [] \<Rightarrow> 0 | x # xs \<Rightarrow> foldl min (length x) (map length xs))"

section \<open>regexMap\<close>

text \<open>
  A \<^verbatim>\<open>regexRule\<close> and a \<^verbatim>\<open>regexMap\<close> (url.go, lines 13-31). A Go map of slices returns
  the empty slice for a key that is not there, so \<open>rules\<close> is a total function.
\<close>

record regexRule =
  rule :: rule
  Regexp :: string

record regexMap =
  stringList :: phraseList
  rules :: "string \<Rightarrow> regexRule list"

definition newRegexMap :: regexMap where
  "newRegexMap = \<lparr>stringList = newPhraseList, rules = (\<lambda>p. [])\<rparr>"

text \<open>
  The loop \<^verbatim>\<open>for _, r := range rs { if r.MatchString(s) { tally[r.rule] = 1 } }\<close>, which
  \<^verbatim>\<open>findMatches\<close> runs for every phrase it tries and for the rules without a literal.
\<close>

definition try_rules :: "lib \<Rightarrow> regexRule list \<Rightarrow> string \<Rightarrow> tally \<Rightarrow> tally" where
  "try_rules l rs s tally =
     foldl (\<lambda>acc r. if MatchString l (Regexp r) s then acc(rule r \<mapsto> 1) else acc) tally rs"

text \<open>
  \<^verbatim>\<open>regexMap.findMatches\<close> (url.go, lines 33-57). The callback of the scanner works on
  the set \<^verbatim>\<open>tried\<close> and on the tally.
\<close>

definition scan_callback ::
  "lib \<Rightarrow> regexMap \<Rightarrow> string \<Rightarrow> string \<Rightarrow> string set \<times> tally \<Rightarrow> string set \<times> tally"
where
  "scan_callback l rm s p st =
     (if p \<in> fst st then st
      else (insert p (fst st), try_rules l (rules rm p) s (snd st)))"

definition findMatches :: "lib \<Rightarrow> regexMap \<Rightarrow> string \<Rightarrow> tally \<Rightarrow> tally" where
  "findMatches l rm s tally =
     (let scanned = foldl (scanByte (stringList rm) (scan_callback l rm s)) ([], ({}, tally)) s
      in try_rules l (rules rm []) s (snd (snd scanned)))"

text \<open>
  \<^verbatim>\<open>regexMap.addRule\<close> (url.go, lines 60-80). The line written to the log when the
  pattern does not compile is left out.
\<close>

definition add_under :: "rule \<Rightarrow> regexMap \<Rightarrow> string \<Rightarrow> regexMap" where
  "add_under r rm p =
     rm\<lparr>stringList := addPhrase (stringList rm) p,
        rules := (rules rm)(p := rules rm p @ [\<lparr>rule = r, Regexp = content r\<rparr>])\<rparr>"

definition addRule :: "lib \<Rightarrow> regexMap \<Rightarrow> rule \<Rightarrow> regexMap" where
  "addRule l rm r =
     (let s = content r
      in case regexp_Compile l s of
           Some err \<Rightarrow> rm
         | None \<Rightarrow>
             (case regexStrings l s of
                Inl err \<Rightarrow> rm\<lparr>rules := (rules rm)([] := rules rm [] @ [\<lparr>rule = r, Regexp = s\<rparr>])\<rparr>
              | Inr ss \<Rightarrow>
                  if minLen ss = 0
                  then rm\<lparr>rules := (rules rm)([] := rules rm [] @ [\<lparr>rule = r, Regexp = s\<rparr>])\<rparr>
                  else foldl (add_under r) rm ss))"

section \<open>URLMatcher\<close>

text \<open>
  \<^verbatim>\<open>URLMatcher\<close>, \<^verbatim>\<open>newURLMatcher\<close> and \<^verbatim>\<open>AddRule\<close> (url.go, lines 82-123), and the
  fields of \<^verbatim>\<open>url.URL\<close> that \<^verbatim>\<open>MatchingRules\<close> reads.
\<close>

record URLMatcher =
  fragments :: "string \<rightharpoonup> rule"
  regexes :: regexMap
  hostRegexes :: regexMap
  pathRegexes :: regexMap
  queryRegexes :: regexMap

definition newURLMatcher :: URLMatcher where
  "newURLMatcher =
     \<lparr>fragments = Map.empty, regexes = newRegexMap, hostRegexes = newRegexMap,
      pathRegexes = newRegexMap, queryRegexes = newRegexMap\<rparr>"

definition AddRule :: "lib \<Rightarrow> URLMatcher \<Rightarrow> rule \<Rightarrow> URLMatcher" where
  "AddRule l m r =
     (case t r of
        urlMatch \<Rightarrow> m\<lparr>fragments := (fragments m)(content r \<mapsto> r)\<rparr>
      | urlRegex \<Rightarrow> m\<lparr>regexes := addRule l (regexes m) r\<rparr>
      | hostRegex \<Rightarrow> m\<lparr>hostRegexes := addRule l (hostRegexes m) r\<rparr>
      | pathRegex \<Rightarrow> m\<lparr>pathRegexes := addRule l (pathRegexes m) r\<rparr>
      | queryRegex \<Rightarrow> m\<lparr>queryRegexes := addRule l (queryRegexes m) r\<rparr>
      | otherRule \<Rightarrow> m)"

record url =
  Scheme :: string
  Host :: string
  Path :: string
  RawQuery :: string

text \<open>
  \<^verbatim>\<open>MatchingRules\<close>, lines 131-138: the host in lower case, without its port. The port
  is cut at the last colon unless a closing bracket follows that colon.
\<close>

definition strip_port :: "string \<Rightarrow> string" where
  "strip_port host =
     (case strings_LastIndex host CHR '':'' of
        None \<Rightarrow> host
      | Some colon \<Rightarrow>
          if \<not> strings_Contains (drop colon host) '']'' then take colon host else host)"

text \<open>\<^verbatim>\<open>MatchingRules\<close>, lines 140-153: labels in Punycode are decoded where they can be.\<close>

definition decode_label :: "lib \<Rightarrow> string \<Rightarrow> string" where
  "decode_label l puny =
     (if \<not> prefix ''xn--'' puny then puny
      else (case punycode_DecodeString l (drop (length ''xn--'') puny) of
              Inr uni \<Rightarrow> uni
            | Inl err \<Rightarrow> puny))"

definition decode_idn :: "lib \<Rightarrow> string \<Rightarrow> string" where
  "decode_idn l host =
     (if strings_Contains host ''xn--''
      then strings_ToLower l (strings_Join (map (decode_label l) (strings_Split host CHR ''.'')) ''.'')
      else host)"

definition normal_host :: "lib \<Rightarrow> url \<Rightarrow> string" where
  "normal_host l u = decode_idn l (strip_port (strings_ToLower l (Host u)))"

text \<open>
  \<^verbatim>\<open>MatchingRules\<close>, lines 155-179: the four tiers of regular expressions, run on the
  host, the path, the query and the URL put together again. The result is the tally
  after the four tiers.
\<close>

definition decoded_query :: "lib \<Rightarrow> string \<Rightarrow> string" where
  "decoded_query l query =
     (case url_QueryUnescape l query of
        Inr q \<Rightarrow> spaces_to_plus q
      | Inl err \<Rightarrow> query)"

definition regex_tiers :: "lib \<Rightarrow> URLMatcher \<Rightarrow> url \<Rightarrow> string \<Rightarrow> tally" where
  "regex_tiers l m u host =
     (let result = Map.empty;
          urlString = (if Scheme u \<noteq> [] then strings_ToLower l (Scheme u) @ '':'' else []);
          (urlString, result) =
             (if host \<noteq> []
              then (urlString @ ''//'' @ host, findMatches l (hostRegexes m) host result)
              else (urlString, result));
          path = strings_ToLower l (Path u);
          result = findMatches l (pathRegexes m) path result;
          urlString = urlString @ path;
          query = strings_ToLower l (RawQuery u);
          (urlString, result) =
             (if query \<noteq> []
              then (let query = decoded_query l query
                    in (urlString @ ''?'' @ query, findMatches l (queryRegexes m) query result))
              else (urlString, result))
      in findMatches l (regexes m) urlString result)"

text \<open>
  \<^verbatim>\<open>MatchingRules\<close>, lines 181-205: the walk over the host, the domains it belongs to
  and the prefixes of the path. The slice \<^verbatim>\<open>s2[:len(s2)-1]\<close> of an empty string is out
  of range, and Go panics there.
\<close>

datatype panic = SliceBoundsOutOfRange

lemma strings_LastIndex_less: "strings_LastIndex s sep = Some i \<Longrightarrow> i < length s"
  by (cases s) (auto simp: strings_LastIndex_def split: if_splits)

lemma takeWhile_stops: "x \<in> set xs \<Longrightarrow> length (takeWhile (\<lambda>c. c \<noteq> x) xs) < length xs"
  by (induction xs) auto

lemma strings_Index_less: "strings_Index s sep = Some i \<Longrightarrow> i < length s"
  by (auto simp: strings_Index_def takeWhile_stops split: if_splits)

definition mark :: "(string \<rightharpoonup> rule) \<Rightarrow> string \<Rightarrow> tally \<Rightarrow> tally" where
  "mark fr key result = (case fr key of Some r \<Rightarrow> result(r \<mapsto> 1) | None \<Rightarrow> result)"

function path_walk :: "(string \<rightharpoonup> rule) \<Rightarrow> string \<Rightarrow> tally \<Rightarrow> panic + tally" where
  "path_walk fr s2 result =
     (let result = mark fr s2 result
      in if s2 = [] then Inl SliceBoundsOutOfRange
         else (case strings_LastIndex (butlast s2) CHR ''/'' of
                 None \<Rightarrow> Inr result
               | Some slash \<Rightarrow> path_walk fr (take (slash + 1) s2) result))"
  by pat_completeness auto
termination
proof (relation "measure (\<lambda>(fr, s2, result). length s2)")
  show "wf (measure (\<lambda>(fr, s2, result). length s2))"
    by simp
next
  fix fr :: "string \<rightharpoonup> rule" and s2 :: string and result x :: tally and slash :: nat
  assume "s2 \<noteq> []" and "strings_LastIndex (butlast s2) CHR ''/'' = Some slash"
  then have "slash < length s2 - 1"
    using strings_LastIndex_less [of "butlast s2" "CHR ''/''" slash] by simp
  then show "((fr, take (slash + 1) s2, x), (fr, s2, result))
               \<in> measure (\<lambda>(fr, s2, result). length s2)"
    by simp
qed

function domain_walk :: "(string \<rightharpoonup> rule) \<Rightarrow> string \<Rightarrow> string \<Rightarrow> tally \<Rightarrow> panic + tally" where
  "domain_walk fr path s result =
     (case path_walk fr (s @ path) result of
        Inl p \<Rightarrow> Inl p
      | Inr result \<Rightarrow>
          (let result = mark fr s result
           in case strings_Index s CHR ''.'' of
                None \<Rightarrow> Inr result
              | Some dot \<Rightarrow> domain_walk fr path (drop (dot + 1) s) result))"
  by pat_completeness auto
termination
proof (relation "measure (\<lambda>(fr, path, s, result). length s)")
  show "wf (measure (\<lambda>(fr, path, s, result). length s))"
    by simp
next
  fix fr :: "string \<rightharpoonup> rule" and path s :: string and result x y :: tally and dot :: nat
  assume "strings_Index s CHR ''.'' = Some dot"
  then have "dot < length s"
    by (rule strings_Index_less)
  then show "((fr, path, drop (dot + 1) s, y), (fr, path, s, result))
               \<in> measure (\<lambda>(fr, path, s, result). length s)"
    by simp
qed

declare path_walk.simps [simp del]

declare domain_walk.simps [simp del]

text \<open>\<^verbatim>\<open>URLMatcher.MatchingRules\<close> (url.go, lines 128-208).\<close>

definition MatchingRules :: "lib \<Rightarrow> URLMatcher \<Rightarrow> url \<Rightarrow> panic + tally" where
  "MatchingRules l m u =
     (let host = normal_host l u;
          result = regex_tiers l m u host;
          path = strings_ToLower l (Path u)
      in domain_walk (fragments m) path host result)"

section \<open>What findMatches computes\<close>

text \<open>The tally with the rules of a set added, each with the value 1.\<close>

definition tally_add :: "tally \<Rightarrow> rule set \<Rightarrow> tally" where
  "tally_add tally R = (\<lambda>r. if r \<in> R then Some 1 else tally r)"

text \<open>The rules filed under a phrase whose expression matches the text.\<close>

definition hits :: "lib \<Rightarrow> regexMap \<Rightarrow> string \<Rightarrow> string \<Rightarrow> rule set" where
  "hits l rm s p = {rule rr | rr. rr \<in> set (rules rm p) \<and> MatchString l (Regexp rr) s}"

text \<open>The phrases of the list that end at one of the positions of \<open>s\<close>, after \<open>fed\<close>.\<close>

definition reported :: "phraseList \<Rightarrow> string \<Rightarrow> string \<Rightarrow> string set" where
  "reported pl fed s = {p \<in> set pl. \<exists>n. 0 < n \<and> n \<le> length s \<and> suffix p (fed @ take n s)}"

section \<open>What addRule files\<close>

text \<open>The entry that \<^verbatim>\<open>addRule\<close> makes for a rule, and the keys it files the entry under.\<close>

definition entry :: "rule \<Rightarrow> regexRule" where
  "entry r = \<lparr>rule = r, Regexp = content r\<rparr>"

definition filed_under :: "lib \<Rightarrow> rule \<Rightarrow> string set" where
  "filed_under l r =
     (case regexp_Compile l (content r) of
        Some err \<Rightarrow> {}
      | None \<Rightarrow>
          (case regexStrings l (content r) of
             Inl err \<Rightarrow> {[]}
           | Inr ss \<Rightarrow> if minLen ss = 0 then {[]} else set ss))"

text \<open>A regexMap made by adding the rules of a list, in order, to an empty one.\<close>

definition regexMap_of :: "lib \<Rightarrow> rule list \<Rightarrow> regexMap" where
  "regexMap_of l rs = foldl (addRule l) newRegexMap rs"

text \<open>
  The tally of the specification: every registered rule whose pattern compiled is tried
  on the text by itself.
\<close>

definition each_regex_alone :: "lib \<Rightarrow> rule list \<Rightarrow> string \<Rightarrow> tally \<Rightarrow> tally" where
  "each_regex_alone l rs s tally =
     foldl (\<lambda>acc r. if regexp_Compile l (content r) = None \<and> MatchString l (content r) s
                     then acc(r \<mapsto> 1) else acc) tally rs"

text \<open>
  What the specification says of \<^verbatim>\<open>regexStrings\<close>: the strings it extracts are literal
  substrings that the pattern requires. For a pattern that compiles and for which strings
  were extracted, none of them empty, every text the pattern matches contains one of them.
\<close>

definition literals_required :: "lib \<Rightarrow> bool" where
  "literals_required l =
     (\<forall>p ss s. regexp_Compile l p = None \<and> regexStrings l p = Inr ss \<and> minLen ss \<noteq> 0
                \<and> MatchString l p s \<longrightarrow> (\<exists>x\<in>set ss. sublist x s))"

section \<open>The keys that the walk looks up\<close>

text \<open>
  The strings that the inner loop of the walk looks up in the fragment map, starting from
  \<open>s2\<close>, and the strings that the whole walk looks up, in the order of the lookups.
\<close>

function path_keys :: "string \<Rightarrow> string list" where
  "path_keys s2 =
     s2 # (if s2 = [] then []
           else (case strings_LastIndex (butlast s2) CHR ''/'' of
                   None \<Rightarrow> []
                 | Some slash \<Rightarrow> path_keys (take (slash + 1) s2)))"
  by pat_completeness auto
termination
proof (relation "measure length")
  show "wf (measure length)"
    by simp
next
  fix s2 :: string and slash :: nat
  assume "s2 \<noteq> []" and "strings_LastIndex (butlast s2) CHR ''/'' = Some slash"
  then have "slash < length s2 - 1"
    using strings_LastIndex_less [of "butlast s2" "CHR ''/''" slash] by simp
  then show "(take (slash + 1) s2, s2) \<in> measure length"
    by simp
qed

function domain_keys :: "string \<Rightarrow> string \<Rightarrow> string list" where
  "domain_keys path s =
     path_keys (s @ path) @ [s] @
       (case strings_Index s CHR ''.'' of
          None \<Rightarrow> []
        | Some dot \<Rightarrow> domain_keys path (drop (dot + 1) s))"
  by pat_completeness auto
termination
proof (relation "measure (\<lambda>(path, s). length s)")
  show "wf (measure (\<lambda>(path, s). length s))"
    by simp
next
  fix path s :: string and dot :: nat
  assume "strings_Index s CHR ''.'' = Some dot"
  then have "dot < length s"
    by (rule strings_Index_less)
  then show "((path, drop (dot + 1) s), (path, s)) \<in> measure (\<lambda>(path, s). length s)"
    by simp
qed

declare path_keys.simps [simp del]

declare domain_keys.simps [simp del]

text \<open>
  The walk does not panic when the path is not empty, or when the host is not empty and
  does not end in a dot.
\<close>

definition walk_safe :: "string \<Rightarrow> string \<Rightarrow> bool" where
  "walk_safe path s = (path \<noteq> [] \<or> (s \<noteq> [] \<and> last s \<noteq> CHR ''.''))"

text \<open>A matcher made by adding the rules of a list, in order, to a new one.\<close>

definition URLMatcher_of :: "lib \<Rightarrow> rule list \<Rightarrow> URLMatcher" where
  "URLMatcher_of l rs = foldl (AddRule l) newURLMatcher rs"

section \<open>Matchers made by AddRule\<close>

text \<open>
  What \<^verbatim>\<open>AddRule\<close> keeps true: a fragment is filed under its own content, and the
  tiers of regular expressions hold no fragment rule.
\<close>

definition no_fragment_rules :: "regexMap \<Rightarrow> bool" where
  "no_fragment_rules rm = (\<forall>p rr. rr \<in> set (rules rm p) \<longrightarrow> t (rule rr) \<noteq> urlMatch)"

definition well_formed :: "URLMatcher \<Rightarrow> bool" where
  "well_formed m =
     ((\<forall>k r. fragments m k = Some r \<longrightarrow> t r = urlMatch \<and> content r = k)
      \<and> no_fragment_rules (regexes m) \<and> no_fragment_rules (hostRegexes m)
      \<and> no_fragment_rules (pathRegexes m) \<and> no_fragment_rules (queryRegexes m))"

text \<open>
  A host that the first steps of \<^verbatim>\<open>MatchingRules\<close> leave as it is: one that
  \<^verbatim>\<open>strings.ToLower\<close> does not change, without a colon, and without the prefix
  \<^verbatim>\<open>xn--\<close> of a label in Punycode anywhere.
\<close>

definition plain_host :: "lib \<Rightarrow> string \<Rightarrow> bool" where
  "plain_host l h =
     (strings_ToLower l h = h \<and> CHR '':'' \<notin> set h \<and> \<not> strings_Contains h ''xn--'')"

text \<open>
  A host without a port: it has no colon, or it ends with the closing bracket of an IPv6
  address. And the text of a port: no colon and no closing bracket in it, as in a
  decimal number.
\<close>

definition without_port :: "string \<Rightarrow> bool" where
  "without_port h = (CHR '':'' \<notin> set h \<or> (h \<noteq> [] \<and> last h = CHR '']''))"

definition port_text :: "string \<Rightarrow> bool" where
  "port_text p = (CHR '':'' \<notin> set p \<and> CHR '']'' \<notin> set p)"

text \<open>
  What the properties about every host need to know of Go's lowering beyond ASCII text.
  It works rune by rune, and no rune of several bytes contains an ASCII byte, so the
  result splits at every ASCII byte. And a rune is mapped to itself, to a small letter,
  or, for a byte that is not valid UTF-8, to U+FFFD, so an ASCII byte of the result that
  is not a small letter was a byte of the argument.
\<close>

definition lower_is_rune_wise :: "lib \<Rightarrow> bool" where
  "lower_is_rune_wise l =
     ((\<forall>a c b. is_ascii c \<longrightarrow>
          strings_ToLower l (a @ c # b) = strings_ToLower l a @ lower_byte c # strings_ToLower l b)
      \<and> (\<forall>s c. c \<in> set (strings_ToLower l s) \<and> is_ascii c
                 \<and> c \<notin> set ''abcdefghijklmnopqrstuvwxyz'' \<longrightarrow> c \<in> set s))"

text \<open>
  A host none of whose labels the Punycode step changes: no label starts with
  \<^verbatim>\<open>xn--\<close>, or the decoder refuses the labels that do.
\<close>

definition labels_kept :: "lib \<Rightarrow> string \<Rightarrow> bool" where
  "labels_kept l h = list_all (\<lambda>puny. decode_label l puny = puny) (strings_Split h CHR ''.'')"

section \<open>Examples of rules and URLs\<close>

text \<open>
  A small library for the examples. Its patterns are plain literals: a pattern matches
  the texts that contain it, the literal that a pattern requires is the pattern itself,
  and the pattern \<^verbatim>\<open>(\<close> does not compile. Its Punycode decoder knows one label,
  \<^verbatim>\<open>bcher-kva\<close>, which RFC 3492 decodes to the German word for books, written here in
  UTF-8; it refuses every other input. Its query decoder returns the text as it is, which
  is what \<^verbatim>\<open>url.QueryUnescape\<close> does on a text without \<^verbatim>\<open>%\<close> and \<^verbatim>\<open>+\<close>. Its
  lowering of a text beyond ASCII lowers the ASCII capitals and keeps every other byte,
  which is what Go does on valid UTF-8 whose other letters are small already, as in the
  decoded label.
\<close>

definition buecher :: string where
  "buecher = ''b'' @ [CHR 0xC3, CHR 0xBC] @ ''cher''"

definition literal_lib :: lib where
  "literal_lib =
     \<lparr>regexp_Compile =
        (\<lambda>p. if p = ''('' then Some (ErrorString ''missing closing )'') else None),
      MatchString = (\<lambda>p s. strings_Contains s p),
      regexStrings = (\<lambda>p. Inr [p]),
      punycode_DecodeString =
        (\<lambda>s. if s = ''bcher-kva'' then Inr buecher
              else Inl (ErrorString ''punycode: invalid input'')),
      url_QueryUnescape = (\<lambda>s. Inr s),
      strings_Map_ToLower = map lower_byte\<rparr>"

definition sub_rule :: rule where
  "sub_rule = \<lparr>t = urlMatch, content = ''example.com/sub''\<rparr>"

definition bad_rule :: rule where
  "bad_rule = \<lparr>t = urlMatch, content = ''bad.com''\<rparr>"

definition idn_rule :: rule where
  "idn_rule = \<lparr>t = urlMatch, content = ''xn--bcher-kva.de''\<rparr>"

definition host_rule :: rule where
  "host_rule = \<lparr>t = urlMatch, content = ''example.com''\<rparr>"

definition http_url :: "string \<Rightarrow> string \<Rightarrow> url" where
  "http_url host path = \<lparr>Scheme = ''http'', Host = host, Path = path, RawQuery = []\<rparr>"

section \<open>More rules and hosts for the examples\<close>

text \<open>
  Three rules for the host tier: \<^verbatim>\<open>ads\<close>, the empty pattern, which has no literal, and
  \<^verbatim>\<open>(\<close>, which does not compile; and a rule that does not match the example.
\<close>

definition ads_rule :: rule where
  "ads_rule = \<lparr>t = hostRegex, content = ''ads''\<rparr>"

definition any_rule :: rule where
  "any_rule = \<lparr>t = hostRegex, content = []\<rparr>"

definition broken_rule :: rule where
  "broken_rule = \<lparr>t = hostRegex, content = ''(''\<rparr>"

definition shop_rule :: rule where
  "shop_rule = \<lparr>t = hostRegex, content = ''shop''\<rparr>"

definition decoded_host :: string where
  "decoded_host = ''www.'' @ buecher @ ''.de''"

section \<open>Properties\<close>

subsection \<open>RetryTransport\<close>

lemma history_logVerbose: "history (logVerbose c f w) = history w"
  by (simp add: history_def logVerbose_def)

lemma recorded_history:
  "recorded transport req w = (r, w') \<Longrightarrow> history w' = history w @ [r]"
  by (auto simp: recorded_def history_def with_env_def split: prod.splits)

lemma retry_loop_history:
  "retry_loop n (recorded transport) req w = (res, w') \<Longrightarrow>
     (case res of
        Some r \<Rightarrow> (\<exists>fs. history w' = history w @ fs @ [r] \<and> length fs < n
                      \<and> list_all retryable_failure fs \<and> \<not> retryable_failure r)
      | None \<Rightarrow> (\<exists>fs. history w' = history w @ fs \<and> length fs = n
                      \<and> list_all retryable_failure fs))"
proof (induction n arbitrary: w)
  case 0
  then show ?case by simp
next
  case (Suc n)
  obtain r w1 where step: "recorded transport req w = (r, w1)"
    by (cases "recorded transport req w")
  have h1: "history w1 = history w @ [r]"
    using step by (rule recorded_history)
  show ?case
  proof (cases "retryable_failure r")
    case False
    then have "res = Some r" "w' = w1"
      using Suc.prems step by (auto simp: retryable_failure_def split: sum.splits if_splits)
    then show ?thesis using h1 False by simp
  next
    case True
    then obtain err where r: "r = Inl err" "shouldRedialForError err"
      by (auto simp: retryable_failure_def split: sum.splits)
    let ?w2 = "logVerbose ''redial'' ''retrying request for %v'' w1"
    have rest: "retry_loop n (recorded transport) req ?w2 = (res, w')"
      using Suc.prems step r by simp
    have h2: "history ?w2 = history w @ [r]"
      using h1 by (simp add: history_logVerbose)
    from Suc.IH [OF rest] show ?thesis
    proof (cases res)
      case None
      with Suc.IH [OF rest] obtain fs where
        "history w' = history ?w2 @ fs" "length fs = n" "list_all retryable_failure fs"
        by auto
      then have "history w' = history w @ (r # fs) \<and> length (r # fs) = Suc n
                 \<and> list_all retryable_failure (r # fs)"
        using h2 True by simp
      then show ?thesis using None by (simp only: option.case) blast
    next
      case (Some x)
      with Suc.IH [OF rest] obtain fs where
        "history w' = history ?w2 @ fs @ [x]" "length fs < n" "list_all retryable_failure fs"
        "\<not> retryable_failure x"
        by auto
      then have "history w' = history w @ (r # fs) @ [x] \<and> length (r # fs) < Suc n
                 \<and> list_all retryable_failure (r # fs) \<and> \<not> retryable_failure x"
        using h2 True by simp
      then show ?thesis using Some by (simp only: option.case) blast
    qed
  qed
qed

text \<open>
  Claim C1, as amended. For a replayable request the inner transport is called at most
  four times: the loop makes up to three attempts and, when all three failed with a
  redial-worthy error, the final \<^verbatim>\<open>return\<close> makes a fourth. Every attempt before the
  last one failed with a redial-worthy error, the result is the result of the last attempt
  (so, when all attempts fail, the error of the final one), and a round trip that stops
  after fewer than four attempts stopped on a success or on an error that is not
  redial-worthy.
\<close>

theorem RetryTransport_four_attempts:
  assumes "requestIsReplayable req"
    and "RetryTransport_RoundTrip (recorded transport) req w = (r, w')"
  shows "\<exists>fs. history w' = history w @ fs @ [r]
           \<and> length fs \<le> 3
           \<and> list_all retryable_failure fs
           \<and> (length fs < 3 \<longrightarrow> \<not> retryable_failure r)"
proof -
  obtain res w1 where loop: "retry_loop 3 (recorded transport) req w = (res, w1)"
    by (cases "retry_loop 3 (recorded transport) req w")
  show ?thesis
  proof (cases res)
    case (Some x)
    then have "r = x" "w' = w1"
      using assms loop by (auto simp: RetryTransport_RoundTrip_def)
    moreover from retry_loop_history [OF loop] Some obtain fs where
      "history w1 = history w @ fs @ [x]" "length fs < 3" "list_all retryable_failure fs"
      "\<not> retryable_failure x"
      by auto
    ultimately show ?thesis by auto
  next
    case None
    then have last: "recorded transport req w1 = (r, w')"
      using assms loop by (auto simp: RetryTransport_RoundTrip_def)
    from retry_loop_history [OF loop] None obtain fs where
      fs: "history w1 = history w @ fs" "length fs = 3" "list_all retryable_failure fs"
      by auto
    have "history w' = history w @ fs @ [r]"
      using recorded_history [OF last] fs by simp
    then show ?thesis using fs by auto
  qed
qed

lemma get_request_replayable: "requestIsReplayable get_request"
  by (simp add: requestIsReplayable_def get_request_def)

lemma shouldRedial_EOF: "shouldRedialForError EOF"
  by (simp add: shouldRedialForError_def)

lemma recorded_always_EOF:
  "recorded always_EOF req w = (Inl EOF, with_env ((), snd (env w) @ [Inl EOF]) w)"
  by (simp add: recorded_def always_EOF_def with_env_def)

text \<open>
  Claim C1, as stated, fails: with an inner transport whose every attempt ends in
  \<^verbatim>\<open>io.EOF\<close>, a replayable GET request makes four attempts, not three.
\<close>

theorem RetryTransport_three_attempts_counterexample:
  "requestIsReplayable get_request \<and>
   length (history (snd (RetryTransport_RoundTrip (recorded always_EOF) get_request fresh_world))) = 4"
  by (simp add: RetryTransport_RoundTrip_def get_request_replayable numeral_3_eq_3
      recorded_always_EOF shouldRedial_EOF with_env_def logVerbose_def history_def fresh_world_def)

text \<open>The amended claim C1 at the same input: three failed attempts and a fourth.\<close>

theorem RetryTransport_four_attempts_witness:
  "requestIsReplayable get_request \<and>
   (\<exists>fs. history (snd (RetryTransport_RoundTrip (recorded always_EOF) get_request fresh_world))
          = history fresh_world @ fs @ [Inl EOF] \<and> length fs \<le> 3 \<and> list_all retryable_failure fs)"
proof -
  have run: "RetryTransport_RoundTrip (recorded always_EOF) get_request fresh_world
     = (Inl EOF, snd (RetryTransport_RoundTrip (recorded always_EOF) get_request fresh_world))"
    by (simp add: RetryTransport_RoundTrip_def get_request_replayable numeral_3_eq_3
      recorded_always_EOF shouldRedial_EOF)
  from RetryTransport_four_attempts [OF get_request_replayable run]
  show ?thesis using get_request_replayable by blast
qed

subsection \<open>Replayable requests\<close>

lemma Header_Get_nonempty:
  "Header_Get h key \<noteq> [] \<longleftrightarrow> has_nonempty_first_value h key"
  by (auto simp: Header_Get_def has_nonempty_first_value_def split: option.splits list.splits)

text \<open>
  Claim C7, as amended. A request is replayable if and only if its body is \<^verbatim>\<open>nil\<close>,
  \<^verbatim>\<open>NoBody\<close> or comes with a \<^verbatim>\<open>GetBody\<close> function, and its method is one of GET,
  HEAD, OPTIONS, TRACE or one of the headers \<^verbatim>\<open>Idempotency-Key\<close>,
  \<^verbatim>\<open>X-Idempotency-Key\<close> is present with a first value that is not empty.
\<close>

theorem requestIsReplayable_iff:
  "requestIsReplayable r \<longleftrightarrow>
     (Body r = NilBody \<or> Body r = NoBody \<or> GetBody r \<noteq> None)
     \<and> (Method r \<in> {''GET'', ''HEAD'', ''OPTIONS'', ''TRACE''}
          \<or> has_nonempty_first_value (Header r) ''Idempotency-Key''
          \<or> has_nonempty_first_value (Header r) ''X-Idempotency-Key'')"
  unfolding requestIsReplayable_def Header_Get_nonempty by auto

text \<open>
  Claim C7, as stated, fails: the marker header of this request is present, so the
  specification's rule calls it replayable, and \<^verbatim>\<open>requestIsReplayable\<close> returns false,
  because \<^verbatim>\<open>Header.Get\<close> returns the empty first value.
\<close>

theorem requestIsReplayable_presence_counterexample:
  "replayable_when_marker_present post_with_empty_marker
   \<and> \<not> requestIsReplayable post_with_empty_marker"
  by (simp add: replayable_when_marker_present_def requestIsReplayable_def
      post_with_empty_marker_def Header_Get_def)

text \<open>
  The amended claim C7 on two POST requests without a body: a marker header with the
  value \<^verbatim>\<open>k1\<close> makes the request replayable, one with an empty value does not.
\<close>

theorem requestIsReplayable_iff_witness:
  "requestIsReplayable (post_with_empty_marker\<lparr>Header := [''Idempotency-Key'' \<mapsto> [''k1'']]\<rparr>)
   \<and> \<not> requestIsReplayable post_with_empty_marker"
  using requestIsReplayable_iff [of "post_with_empty_marker\<lparr>Header := [''Idempotency-Key'' \<mapsto> [''k1'']]\<rparr>"]
    requestIsReplayable_iff [of post_with_empty_marker]
  by (simp add: has_nonempty_first_value_def post_with_empty_marker_def)

subsection \<open>The transports\<close>

lemma post_request_not_replayable: "\<not> requestIsReplayable post_request"
  by (simp add: requestIsReplayable_def post_request_def)

text \<open>
  Claim C3, as amended. When the chain fails against the system roots and against the
  configured extra pool, the connection is closed and the error returned is the one of the
  second verification, against the extra pool: the variable that held the first error has
  been overwritten.
\<close>

theorem dialWithExtraRootCerts_both_fail:
  assumes "DialWithDialer tls network addr = Inr c"
    and "Verify tls c None = Inl err1"
    and "ExtraRootCerts tls = Some pool"
    and "Verify tls c (Some pool) = Inl err2"
  shows "dialWithExtraRootCerts tls network addr = (Inl err2, [EvClose c])"
  using assms by (simp add: dialWithExtraRootCerts_def)

text \<open>
  Claim C3, as stated, fails: the system roots reject the chain as signed by an unknown
  authority, the extra pool rejects it as expired, and the caller gets the second error,
  not the original one.
\<close>

theorem dialWithExtraRootCerts_original_error_counterexample:
  "Verify failing_tls 7 None = Inl unknown_authority
   \<and> Verify failing_tls 7 (ExtraRootCerts failing_tls) = Inl expired
   \<and> dialWithExtraRootCerts failing_tls ''tcp'' ''example.com:443'' = (Inl expired, [EvClose 7])
   \<and> expired \<noteq> unknown_authority"
  by (simp add: dialWithExtraRootCerts_def failing_tls_def expired_def unknown_authority_def)

text \<open>The amended claim C3 on that server.\<close>

theorem dialWithExtraRootCerts_both_fail_witness:
  "dialWithExtraRootCerts failing_tls ''tcp'' ''example.com:443'' = (Inl expired, [EvClose 7])"
proof -
  have "DialWithDialer failing_tls ''tcp'' ''example.com:443'' = Inr 7"
    and "Verify failing_tls 7 None = Inl unknown_authority"
    and "ExtraRootCerts failing_tls = Some 1"
    and "Verify failing_tls 7 (Some 1) = Inl expired"
    by (simp_all add: failing_tls_def)
  then show ?thesis by (rule dialWithExtraRootCerts_both_fail)
qed

text \<open>
  Claim C10. A redial that fails, because there is no redial function or because the
  function returns an error, leaves the transport as it was and closes nothing; those are
  the only ways it fails; and a redial that succeeds closes the old connection and puts
  the new connection and a reader on it in its place.
\<close>

theorem redial_failure_keeps_session:
  assumes "redial ct c w = (res, ct', w')"
  shows "(res \<noteq> None \<longrightarrow> ct' = ct \<and> trace w' = trace w)
       \<and> (res \<noteq> None \<longleftrightarrow>
             Redial ct = None \<or> (\<exists>f err e'. Redial ct = Some f \<and> f c (env w) = (Inl err, e')))
       \<and> (res = None \<longrightarrow>
             (\<exists>f newConn e'. Redial ct = Some f \<and> f c (env w) = (Inr newConn, e')
                \<and> ct' = ct\<lparr>Conn := newConn, br := Some (NewReader newConn)\<rparr>
                \<and> trace w' = trace w @ [EvClose (Conn ct)]))"
  using assms
  by (auto simp: redial_def split: option.splits sum.splits prod.splits)

text \<open>Claim C10 on a session without a redial function: the redial fails and changes nothing.\<close>

theorem redial_failure_keeps_session_witness:
  "redial (used_session :: unit connTransport) 0 \<lparr>env = (), trace = []\<rparr>
     = (Some (ErrorString ''no redial function provided''), used_session, \<lparr>env = (), trace = []\<rparr>)"
proof -
  have run: "redial (used_session :: unit connTransport) 0 \<lparr>env = (), trace = []\<rparr>
     = (fst (redial (used_session :: unit connTransport) 0 \<lparr>env = (), trace = []\<rparr>),
        fst (snd (redial (used_session :: unit connTransport) 0 \<lparr>env = (), trace = []\<rparr>)),
        snd (snd (redial (used_session :: unit connTransport) 0 \<lparr>env = (), trace = []\<rparr>)))"
    by simp
  have res: "fst (redial (used_session :: unit connTransport) 0 \<lparr>env = (), trace = []\<rparr>)
     = Some (ErrorString ''no redial function provided'')"
    by (simp add: redial_def used_session_def)
  from redial_failure_keeps_session [OF run] res
  have "fst (snd (redial (used_session :: unit connTransport) 0 \<lparr>env = (), trace = []\<rparr>)) = used_session"
    and "trace (snd (snd (redial (used_session :: unit connTransport) 0 \<lparr>env = (), trace = []\<rparr>))) = []"
    by simp_all
  then show ?thesis using res
    by (simp add: redial_def used_session_def)
qed

lemma roundTrip_logs_nothing:
  "roundTrip net ct req w = (r, ct', w') \<Longrightarrow> filter is_EvLog (trace w') = filter is_EvLog (trace w)"
  by (auto simp: roundTrip_def Let_def split: option.splits prod.splits sum.splits)

lemma redial_logs_nothing:
  "redial ct c w = (res, ct', w') \<Longrightarrow> filter is_EvLog (trace w') = filter is_EvLog (trace w)"
  by (auto simp: redial_def split: option.splits prod.splits sum.splits)

text \<open>
  Claim C4, what the code does. On a used session and a request that is not replayable,
  the redial is attempted first; when it fails, the round trip goes on with the request on
  the existing connection, and nothing at all is logged: the line that would log the
  failure is guarded by the named result \<^verbatim>\<open>err\<close>, which is \<^verbatim>\<open>nil\<close> there.
\<close>

theorem RoundTrip_proactive_redial_failure_not_logged:
  assumes "used ct" and "\<not> requestIsReplayable req"
    and "redial ct (Ctx req) w = (Some redialErr, ct1, w1)"
    and "RoundTrip net ct req w = (r, ct', w')"
  shows "RoundTrip net ct req w = roundTrip net (ct\<lparr>used := True\<rparr>) req w1
       \<and> trace w1 = trace w
       \<and> filter is_EvLog (trace w') = filter is_EvLog (trace w)"
proof -
  have same: "ct1 = ct" "trace w1 = trace w"
    using assms(3) by (auto simp: redial_def split: option.splits prod.splits sum.splits)
  have step: "RoundTrip net ct req w = roundTrip net (ct\<lparr>used := True\<rparr>) req w1"
    using assms(1,2,3) same
    by (auto simp: RoundTrip_def Let_def split: prod.splits sum.splits)
  then have "roundTrip net (ct\<lparr>used := True\<rparr>) req w1 = (r, ct', w')"
    using assms(4) by simp
  then have "filter is_EvLog (trace w') = filter is_EvLog (trace w1)"
    by (rule roundTrip_logs_nothing)
  then show ?thesis using step same by simp
qed

text \<open>
  Claim C4 at a concrete input: a used session without a redial function and a POST
  request. The redial fails, the request is written to the old connection and answered,
  and the trace holds the write and the read, and no log line.
\<close>

theorem RoundTrip_proactive_redial_failure_not_logged_witness:
  "used (used_session :: unit connTransport) \<and> \<not> requestIsReplayable post_request
   \<and> fst (redial (used_session :: unit connTransport) (Ctx post_request) \<lparr>env = (), trace = []\<rparr>)
       = Some (ErrorString ''no redial function provided'')
   \<and> fst (RoundTrip quiet_net used_session post_request \<lparr>env = (), trace = []\<rparr>)
       = Inr (ok_response\<lparr>RespBody := BodyWithContext (ReaderBody 0) 0\<rparr>)
   \<and> trace (snd (snd (RoundTrip quiet_net used_session post_request \<lparr>env = (), trace = []\<rparr>)))
       = [EvWrite 1, EvReadResponse 1]"
proof -
  let ?w = "\<lparr>env = (), trace = []\<rparr> :: unit world"
  have u: "used (used_session :: unit connTransport)"
    by (simp add: used_session_def)
  have rd: "redial (used_session :: unit connTransport) (Ctx post_request) ?w
      = (Some (ErrorString ''no redial function provided''), used_session, ?w)"
    by (simp add: redial_def used_session_def)
  have run: "RoundTrip quiet_net used_session post_request ?w
      = (fst (RoundTrip quiet_net used_session post_request ?w),
         fst (snd (RoundTrip quiet_net used_session post_request ?w)),
         snd (snd (RoundTrip quiet_net used_session post_request ?w)))"
    by simp
  have "RoundTrip quiet_net used_session post_request ?w
      = roundTrip quiet_net (used_session\<lparr>used := True\<rparr>) post_request ?w"
    using RoundTrip_proactive_redial_failure_not_logged
      [OF u post_request_not_replayable rd run] by simp
  then show ?thesis
    using u post_request_not_replayable rd
    by (simp add: roundTrip_def quiet_net_def used_session_def post_request_def ok_response_def)
qed

text \<open>
  Claim C6, as amended. A round trip whose context is already done returns the context's
  error at once, with the transport and the world as they were, so before anything is
  written. The body of every response that \<^verbatim>\<open>roundTrip\<close> returns is a
  \<^verbatim>\<open>bodyWithContext\<close> on the request's context: a read that starts while the context
  is done returns no bytes and the context's error and leaves the environment alone, and
  a read that starts before that is the read of the wrapped body, whatever happens to the
  context while it runs.
\<close>

theorem roundTrip_cancellation:
  "(ctx_Err net (Ctx req) (env w) = Some cerr \<longrightarrow> roundTrip net ct req w = (Inl cerr, ct, w))
   \<and> (roundTrip net ct req w = (Inr resp, ct', w') \<longrightarrow>
        (\<exists>b. RespBody resp = BodyWithContext b (Ctx req)
           \<and> (\<forall>e cerr. ctx_Err net (Ctx req) e = Some cerr \<longrightarrow>
                 body_Read net (RespBody resp) e = ((0, Some cerr), e))
           \<and> (\<forall>e. ctx_Err net (Ctx req) e = None \<longrightarrow>
                 body_Read net (RespBody resp) e = body_Read net b e)))"
proof (intro conjI impI)
  assume "ctx_Err net (Ctx req) (env w) = Some cerr"
  then show "roundTrip net ct req w = (Inl cerr, ct, w)"
    by (simp add: roundTrip_def)
next
  assume "roundTrip net ct req w = (Inr resp, ct', w')"
  then obtain resp0 where "resp = resp0\<lparr>RespBody := BodyWithContext (RespBody resp0) (Ctx req)\<rparr>"
    by (auto simp: roundTrip_def Let_def split: option.splits prod.splits sum.splits)
  then have "RespBody resp = BodyWithContext (RespBody resp0) (Ctx req)"
    by simp
  then show "\<exists>b. RespBody resp = BodyWithContext b (Ctx req)
           \<and> (\<forall>e cerr. ctx_Err net (Ctx req) e = Some cerr \<longrightarrow>
                 body_Read net (RespBody resp) e = ((0, Some cerr), e))
           \<and> (\<forall>e. ctx_Err net (Ctx req) e = None \<longrightarrow>
                 body_Read net (RespBody resp) e = body_Read net b e)"
    by simp
qed

text \<open>
  Claim C6, as stated, fails for a blocked read. The read of the response body starts
  while the context is not done and is handed to the wrapped body; the context is
  cancelled while that read is blocked; the read then returns its five bytes and no
  error, although the signal is set when it returns.
\<close>

theorem bodyWithContext_blocked_read_counterexample:
  "(case roundTrip cancelling_net used_session post_request \<lparr>env = False, trace = []\<rparr> of
      (Inr resp, ct', w') \<Rightarrow>
        ctx_Err cancelling_net (Ctx post_request) (env w') = None
        \<and> body_Read cancelling_net (RespBody resp) (env w') = ((5, None), True)
        \<and> ctx_Err cancelling_net (Ctx post_request) True = Some Canceled
    | (Inl err, ct', w') \<Rightarrow> False)"
  by (simp add: roundTrip_def cancelling_net_def used_session_def post_request_def ok_response_def)

text \<open>
  The amended claim C6 on the same network: a cancelled request fails before the write,
  and a read of a returned body that starts after the cancellation reads nothing.
\<close>

theorem roundTrip_cancellation_witness:
  "roundTrip cancelling_net used_session post_request \<lparr>env = True, trace = []\<rparr>
     = (Inl Canceled, used_session, \<lparr>env = True, trace = []\<rparr>)
   \<and> body_Read cancelling_net (BodyWithContext (ReaderBody 0) 0) True = ((0, Some Canceled), True)"
proof -
  have c: "ctx_Err cancelling_net (Ctx post_request) (env \<lparr>env = True, trace = []\<rparr>) = Some Canceled"
    by (simp add: cancelling_net_def)
  have "roundTrip cancelling_net used_session post_request \<lparr>env = True, trace = []\<rparr>
     = (Inl Canceled, used_session, \<lparr>env = True, trace = []\<rparr>)"
    using roundTrip_cancellation
      [of cancelling_net post_request "\<lparr>env = True, trace = []\<rparr>" Canceled used_session] c
    by blast
  then show ?thesis by (simp add: cancelling_net_def)
qed

subsection \<open>What findMatches computes\<close>

lemma tally_add_twice: "tally_add (tally_add tally A) B = tally_add tally (A \<union> B)"
  by (auto simp: tally_add_def)

lemma tally_add_empty: "tally_add tally {} = tally"
  by (simp add: tally_add_def)

lemma try_rules_tally_add:
  "try_rules l rs s tally
     = tally_add tally {rule rr | rr. rr \<in> set rs \<and> MatchString l (Regexp rr) s}"
proof (induction rs arbitrary: tally)
  case Nil
  then show ?case by (simp add: try_rules_def tally_add_def)
next
  case (Cons r rs)
  have "try_rules l (r # rs) s tally
      = try_rules l rs s (if MatchString l (Regexp r) s then tally(rule r \<mapsto> 1) else tally)"
    by (simp add: try_rules_def)
  also have "\<dots> = tally_add (if MatchString l (Regexp r) s then tally(rule r \<mapsto> 1) else tally)
                     {rule rr | rr. rr \<in> set rs \<and> MatchString l (Regexp rr) s}"
    by (rule Cons.IH)
  also have "\<dots> = tally_add tally {rule rr | rr. rr \<in> set (r # rs) \<and> MatchString l (Regexp rr) s}"
    by (auto simp: tally_add_def fun_eq_iff)
  finally show ?case .
qed

lemma try_rules_hits: "try_rules l (rules rm p) s tally = tally_add tally (hits l rm s p)"
  by (simp add: try_rules_tally_add hits_def)

lemma callbacks_fold:
  "foldl (\<lambda>acc p. scan_callback l rm s p acc) (T, tally_add tally (\<Union>q\<in>T. hits l rm s q)) ps
     = (T \<union> set ps, tally_add tally (\<Union>q\<in>T \<union> set ps. hits l rm s q))"
proof (induction ps arbitrary: T)
  case Nil
  then show ?case by simp
next
  case (Cons p ps)
  have step: "scan_callback l rm s p (T, tally_add tally (\<Union>q\<in>T. hits l rm s q))
      = (insert p T, tally_add tally (\<Union>q\<in>insert p T. hits l rm s q))"
  proof (cases "p \<in> T")
    case True
    then have "insert p T = T" by auto
    then show ?thesis using True by (simp add: scan_callback_def)
  next
    case False
    have "(\<Union>q\<in>T. hits l rm s q) \<union> hits l rm s p = (\<Union>q\<in>insert p T. hits l rm s q)"
      by auto
    then show ?thesis
      using False by (simp add: scan_callback_def try_rules_hits tally_add_twice)
  qed
  have "insert p T \<union> set ps = T \<union> set (p # ps)"
    by auto
  then show ?case
    using Cons.IH [of "insert p T"] step by simp
qed

lemma reported_Cons:
  "reported pl fed (c # s) = {p \<in> set pl. suffix p (fed @ [c])} \<union> reported pl (fed @ [c]) s"
proof -
  have "(\<exists>n. 0 < n \<and> n \<le> length (c # s) \<and> suffix p (fed @ take n (c # s)))
      \<longleftrightarrow> suffix p (fed @ [c])
          \<or> (\<exists>n. 0 < n \<and> n \<le> length s \<and> suffix p ((fed @ [c]) @ take n s))" for p
  proof
    assume "\<exists>n. 0 < n \<and> n \<le> length (c # s) \<and> suffix p (fed @ take n (c # s))"
    then obtain n where n: "0 < n" "n \<le> length (c # s)" "suffix p (fed @ take n (c # s))"
      by blast
    then obtain k where k: "n = Suc k" by (cases n) auto
    show "suffix p (fed @ [c])
          \<or> (\<exists>n. 0 < n \<and> n \<le> length s \<and> suffix p ((fed @ [c]) @ take n s))"
    proof (cases k)
      case 0
      then show ?thesis using n k by simp
    next
      case (Suc j)
      then have "0 < k \<and> k \<le> length s \<and> suffix p ((fed @ [c]) @ take k s)"
        using n k by simp
      then show ?thesis by blast
    qed
  next
    assume "suffix p (fed @ [c])
          \<or> (\<exists>n. 0 < n \<and> n \<le> length s \<and> suffix p ((fed @ [c]) @ take n s))"
    then show "\<exists>n. 0 < n \<and> n \<le> length (c # s) \<and> suffix p (fed @ take n (c # s))"
    proof
      assume "suffix p (fed @ [c])"
      then have "0 < (1::nat) \<and> 1 \<le> length (c # s) \<and> suffix p (fed @ take 1 (c # s))"
        by simp
      then show ?thesis by blast
    next
      assume "\<exists>n. 0 < n \<and> n \<le> length s \<and> suffix p ((fed @ [c]) @ take n s)"
      then obtain n where "0 < n" "n \<le> length s" "suffix p ((fed @ [c]) @ take n s)"
        by blast
      then have "0 < Suc n \<and> Suc n \<le> length (c # s) \<and> suffix p (fed @ take (Suc n) (c # s))"
        by simp
      then show ?thesis by blast
    qed
  qed
  then show ?thesis
    unfolding reported_def by blast
qed

lemma scan_fold:
  "foldl (scanByte pl (scan_callback l rm s0)) (fed, (T, tally_add tally (\<Union>q\<in>T. hits l rm s0 q))) s
     = (fed @ s, (T \<union> reported pl fed s,
          tally_add tally (\<Union>q\<in>T \<union> reported pl fed s. hits l rm s0 q)))"
proof (induction s arbitrary: fed T)
  case Nil
  then show ?case by (simp add: reported_def)
next
  case (Cons c s)
  let ?now = "{p \<in> set pl. suffix p (fed @ [c])}"
  have "scanByte pl (scan_callback l rm s0) (fed, (T, tally_add tally (\<Union>q\<in>T. hits l rm s0 q))) c
      = (fed @ [c], (T \<union> ?now, tally_add tally (\<Union>q\<in>T \<union> ?now. hits l rm s0 q)))"
    by (simp add: scanByte_def callbacks_fold)
  moreover have "T \<union> ?now \<union> reported pl (fed @ [c]) s = T \<union> reported pl fed (c # s)"
    by (auto simp: reported_Cons)
  ultimately show ?case
    using Cons.IH [of "fed @ [c]" "T \<union> ?now"] by simp
qed

lemma findMatches_tally_add:
  "findMatches l rm s tally
     = tally_add tally (\<Union>q\<in>insert [] (reported (stringList rm) [] s). hits l rm s q)"
proof -
  have "foldl (scanByte (stringList rm) (scan_callback l rm s)) ([], ({}, tally)) s
      = ([] @ s, ({} \<union> reported (stringList rm) [] s,
           tally_add tally (\<Union>q\<in>{} \<union> reported (stringList rm) [] s. hits l rm s q)))"
    using scan_fold [of "stringList rm" l rm s "[]" "{}" tally s]
    by (simp add: tally_add_empty)
  then show ?thesis
    by (simp add: findMatches_def try_rules_hits tally_add_twice Un_commute)
qed

lemma reported_sublist:
  assumes "p \<noteq> []"
  shows "p \<in> reported pl [] s \<longleftrightarrow> p \<in> set pl \<and> sublist p s"
proof -
  have "(\<exists>n. 0 < n \<and> n \<le> length s \<and> suffix p (take n s)) \<longleftrightarrow> sublist p s"
  proof
    assume "\<exists>n. 0 < n \<and> n \<le> length s \<and> suffix p (take n s)"
    then obtain n zs where "take n s = zs @ p"
      by (auto simp: suffix_def)
    then have "s = zs @ p @ drop n s"
      by (metis append_assoc append_take_drop_id)
    then show "sublist p s"
      unfolding sublist_def by blast
  next
    assume "sublist p s"
    then obtain ps ss where s: "s = ps @ p @ ss"
      unfolding sublist_def by blast
    let ?n = "length (ps @ p)"
    have "0 < ?n \<and> ?n \<le> length s \<and> suffix p (take ?n s)"
      using assms s by (simp add: suffix_def)
    then show "\<exists>n. 0 < n \<and> n \<le> length s \<and> suffix p (take n s)"
      by blast
  qed
  then show ?thesis
    by (simp add: reported_def)
qed

subsection \<open>What addRule files\<close>

lemma foldl_min_positive: "foldl min (a::nat) ns \<noteq> 0 \<Longrightarrow> a \<noteq> 0 \<and> 0 \<notin> set ns"
proof (induction ns arbitrary: a)
  case Nil
  then show ?case by simp
next
  case (Cons n ns)
  have "foldl min (min a n) ns \<noteq> 0"
    using Cons.prems by simp
  then have "min a n \<noteq> 0 \<and> 0 \<notin> set ns"
    by (rule Cons.IH)
  then show ?case by (auto simp: min_def split: if_splits)
qed

lemma minLen_positive: "minLen ss \<noteq> 0 \<Longrightarrow> [] \<notin> set ss"
proof (cases ss)
  case Nil
  then show ?thesis by simp
next
  case (Cons x xs)
  assume "minLen ss \<noteq> 0"
  then have "length x \<noteq> 0 \<and> 0 \<notin> set (map length xs)"
    using Cons foldl_min_positive [of "length x" "map length xs"] by (simp add: minLen_def)
  then show ?thesis using Cons by auto
qed

lemma add_under_fold_rules:
  "set (rules (foldl (add_under r) rm ss) p)
     = set (rules rm p) \<union> (if p \<in> set ss then {entry r} else {})"
  by (induction ss arbitrary: rm) (auto simp: add_under_def entry_def)

lemma add_under_fold_stringList:
  "set (stringList (foldl (add_under r) rm ss)) = set (stringList rm) \<union> set ss"
  by (induction ss arbitrary: rm) (auto simp: add_under_def addPhrase_def)

lemma addRule_rules:
  "set (rules (addRule l rm r) p)
     = set (rules rm p) \<union> (if p \<in> filed_under l r then {entry r} else {})"
  by (auto simp: addRule_def filed_under_def Let_def add_under_fold_rules entry_def
      split: option.splits sum.splits)

lemma addRule_stringList:
  "set (stringList (addRule l rm r)) = set (stringList rm) \<union> (filed_under l r - {[]})"
proof -
  have "set ss - {[]} = set ss" if "minLen ss \<noteq> 0" for ss :: "string list"
    using that minLen_positive [of ss] by auto
  then show ?thesis
    by (auto simp: addRule_def filed_under_def Let_def add_under_fold_stringList
        split: option.splits sum.splits)
qed

lemma addRules_rules:
  "set (rules (foldl (addRule l) rm rs) p)
     = set (rules rm p) \<union> {entry r | r. r \<in> set rs \<and> p \<in> filed_under l r}"
proof (induction rs arbitrary: rm)
  case Nil
  then show ?case by simp
next
  case (Cons r rs)
  show ?case
    by (simp add: Cons.IH addRule_rules) blast
qed

lemma addRules_stringList:
  "set (stringList (foldl (addRule l) rm rs))
     = set (stringList rm) \<union> (\<Union>r\<in>set rs. filed_under l r - {[]})"
proof (induction rs arbitrary: rm)
  case Nil
  then show ?case by simp
next
  case (Cons r rs)
  show ?case
    by (simp add: Cons.IH addRule_stringList) blast
qed

lemma regexMap_of_rules:
  "set (rules (regexMap_of l rs) p) = {entry r | r. r \<in> set rs \<and> p \<in> filed_under l r}"
  by (simp add: regexMap_of_def addRules_rules newRegexMap_def)

lemma regexMap_of_stringList:
  "set (stringList (regexMap_of l rs)) = (\<Union>r\<in>set rs. filed_under l r - {[]})"
  by (simp add: regexMap_of_def addRules_stringList newRegexMap_def newPhraseList_def)

lemma each_regex_alone_tally_add:
  "each_regex_alone l rs s tally
     = tally_add tally {r \<in> set rs. regexp_Compile l (content r) = None \<and> MatchString l (content r) s}"
proof (induction rs arbitrary: tally)
  case Nil
  then show ?case by (simp add: each_regex_alone_def tally_add_def)
next
  case (Cons r rs)
  let ?tally = "if regexp_Compile l (content r) = None \<and> MatchString l (content r) s
                then tally(r \<mapsto> 1) else tally"
  have "each_regex_alone l (r # rs) s tally = each_regex_alone l rs s ?tally"
    by (simp add: each_regex_alone_def)
  also have "\<dots> = tally_add ?tally
      {r \<in> set rs. regexp_Compile l (content r) = None \<and> MatchString l (content r) s}"
    by (rule Cons.IH)
  also have "\<dots> = tally_add tally
      {x \<in> set (r # rs). regexp_Compile l (content x) = None \<and> MatchString l (content x) s}"
    by (auto simp: tally_add_def fun_eq_iff)
  finally show ?case .
qed

lemma filed_under_compiled: "p \<in> filed_under l r \<Longrightarrow> regexp_Compile l (content r) = None"
  by (auto simp: filed_under_def split: option.splits)

lemma matched_rule_is_hit:
  assumes req: "literals_required l"
    and r: "r \<in> set rs" "regexp_Compile l (content r) = None" "MatchString l (content r) s"
  shows "\<exists>q\<in>insert [] (reported (stringList (regexMap_of l rs)) [] s).
           r \<in> hits l (regexMap_of l rs) s q"
proof (cases "[] \<in> filed_under l r")
  case True
  then have "entry r \<in> set (rules (regexMap_of l rs) [])"
    using r(1) by (auto simp: regexMap_of_rules)
  then have "r \<in> hits l (regexMap_of l rs) s []"
    using r(3) by (force simp: hits_def entry_def)
  then show ?thesis by blast
next
  case False
  then obtain ss where ss: "regexStrings l (content r) = Inr ss" "minLen ss \<noteq> 0"
    "filed_under l r = set ss"
    using r(2) by (auto simp: filed_under_def split: sum.splits if_splits)
  then obtain x where x: "x \<in> set ss" "sublist x s"
    using req r(2,3) unfolding literals_required_def by blast
  have "x \<noteq> []"
    using x(1) ss(2) minLen_positive by blast
  moreover have "x \<in> set (stringList (regexMap_of l rs))"
    using x(1) ss(3) r(1) \<open>x \<noteq> []\<close> by (auto simp: regexMap_of_stringList)
  ultimately have "x \<in> reported (stringList (regexMap_of l rs)) [] s"
    using x(2) by (simp add: reported_sublist)
  moreover have "entry r \<in> set (rules (regexMap_of l rs) x)"
    using x(1) ss(3) r(1) by (auto simp: regexMap_of_rules)
  then have "r \<in> hits l (regexMap_of l rs) s x"
    using r(3) by (force simp: hits_def entry_def)
  ultimately show ?thesis by blast
qed

lemma hit_is_matched_rule:
  assumes "x \<in> hits l (regexMap_of l rs) s q"
  shows "x \<in> set rs \<and> regexp_Compile l (content x) = None \<and> MatchString l (content x) s"
proof -
  from assms obtain rr where rr: "rr \<in> set (rules (regexMap_of l rs) q)" "rule rr = x"
    "MatchString l (Regexp rr) s"
    by (auto simp: hits_def)
  then obtain r where "rr = entry r" "r \<in> set rs" "q \<in> filed_under l r"
    by (auto simp: regexMap_of_rules)
  then show ?thesis
    using rr filed_under_compiled by (auto simp: entry_def)
qed

text \<open>
  Claim C2. When the strings that \<^verbatim>\<open>regexStrings\<close> extracts are required by the
  pattern, the tally of \<^verbatim>\<open>findMatches\<close> on a regexMap filled by \<^verbatim>\<open>addRule\<close> is the
  tally of trying every compiled rule by itself, for every text, every list of rules and
  every tally to start from.
\<close>

theorem findMatches_is_each_regex_alone:
  assumes "literals_required l"
  shows "findMatches l (regexMap_of l rs) s tally = each_regex_alone l rs s tally"
proof -
  have "(\<Union>q\<in>insert [] (reported (stringList (regexMap_of l rs)) [] s). hits l (regexMap_of l rs) s q)
      = {r \<in> set rs. regexp_Compile l (content r) = None \<and> MatchString l (content r) s}"
    (is "?found = ?alone")
  proof (rule set_eqI)
    fix x
    show "x \<in> ?found \<longleftrightarrow> x \<in> ?alone"
    proof
      assume "x \<in> ?found"
      then obtain q where "x \<in> hits l (regexMap_of l rs) s q" by blast
      then show "x \<in> ?alone" using hit_is_matched_rule by blast
    next
      assume "x \<in> ?alone"
      then have "x \<in> set rs" "regexp_Compile l (content x) = None" "MatchString l (content x) s"
        by auto
      from matched_rule_is_hit [OF assms this] show "x \<in> ?found" by blast
    qed
  qed
  then show ?thesis
    by (simp add: findMatches_tally_add each_regex_alone_tally_add)
qed

subsection \<open>The keys that the walk looks up\<close>

lemma mark_apply: "mark fr k result r = (if fr k = Some r then Some 1 else result r)"
  by (auto simp: mark_def split: option.splits)

lemma marks_apply:
  "foldl (\<lambda>acc k. mark fr k acc) result ks r
     = (if \<exists>k\<in>set ks. fr k = Some r then Some 1 else result r)"
  by (induction ks arbitrary: result) (auto simp: mark_apply)

lemma path_walk_keys:
  "s2 \<noteq> [] \<Longrightarrow>
     path_walk fr s2 result = Inr (foldl (\<lambda>acc k. mark fr k acc) result (path_keys s2))"
proof (induction fr s2 result rule: path_walk.induct)
  case (1 fr s2 result)
  show ?case
  proof (cases "strings_LastIndex (butlast s2) CHR ''/''")
    case None
    then show ?thesis
      using "1.prems" by (subst path_walk.simps, subst path_keys.simps) simp
  next
    case (Some slash)
    have "take (slash + 1) s2 \<noteq> []"
      using "1.prems" by simp
    then have "path_walk fr (take (slash + 1) s2) (mark fr s2 result)
        = Inr (foldl (\<lambda>acc k. mark fr k acc) (mark fr s2 result) (path_keys (take (slash + 1) s2)))"
      using "1.IH" [OF refl "1.prems" Some] by simp
    then show ?thesis
      using "1.prems" Some by (subst path_walk.simps, subst path_keys.simps) simp
  qed
qed

lemma path_walk_empty: "path_walk fr [] result = Inl SliceBoundsOutOfRange"
  by (subst path_walk.simps) simp

lemma strings_Index_nth:
  "strings_Index s sep = Some i \<Longrightarrow> i < length s \<and> s ! i = sep"
proof -
  assume a: "strings_Index s sep = Some i"
  then have i: "i = length (takeWhile (\<lambda>c. c \<noteq> sep) s)" and "sep \<in> set s"
    by (auto simp: strings_Index_def split: if_splits)
  then have "i < length s"
    by (simp add: takeWhile_stops)
  moreover from this have "\<not> (s ! i \<noteq> sep)"
    unfolding i by (rule nth_length_takeWhile)
  ultimately show ?thesis by simp
qed

lemma walk_safe_drop:
  assumes "walk_safe path s" and "strings_Index s CHR ''.'' = Some dot"
  shows "walk_safe path (drop (dot + 1) s)"
proof (cases "path = []")
  case False
  then show ?thesis by (simp add: walk_safe_def)
next
  case True
  then have s: "s \<noteq> []" "last s \<noteq> CHR ''.''"
    using assms(1) by (auto simp: walk_safe_def)
  have dot: "dot < length s" "s ! dot = CHR ''.''"
    using strings_Index_nth [OF assms(2)] by auto
  have "dot \<noteq> length s - 1"
    using s dot by (auto simp: last_conv_nth)
  then have "dot + 1 < length s"
    using dot(1) by simp
  then have "drop (dot + 1) s \<noteq> []" and "last (drop (dot + 1) s) = last s"
    by (simp_all add: last_drop)
  then show ?thesis
    using s by (simp add: walk_safe_def)
qed

lemma domain_walk_keys:
  "walk_safe path s \<Longrightarrow>
     domain_walk fr path s result
       = Inr (foldl (\<lambda>acc k. mark fr k acc) result (domain_keys path s))"
proof (induction fr path s result rule: domain_walk.induct)
  case (1 fr path s result)
  let ?r1 = "foldl (\<lambda>acc k. mark fr k acc) result (path_keys (s @ path))"
  have "s @ path \<noteq> []"
    using "1.prems" by (auto simp: walk_safe_def)
  then have pw: "path_walk fr (s @ path) result = Inr ?r1"
    by (rule path_walk_keys)
  show ?case
  proof (cases "strings_Index s CHR ''.''")
    case None
    then show ?thesis
      using pw by (subst domain_walk.simps, subst domain_keys.simps) simp
  next
    case (Some dot)
    have "walk_safe path (drop (dot + 1) s)"
      using "1.prems" Some by (rule walk_safe_drop)
    then have "domain_walk fr path (drop (dot + 1) s) (mark fr s ?r1)
        = Inr (foldl (\<lambda>acc k. mark fr k acc) (mark fr s ?r1) (domain_keys path (drop (dot + 1) s)))"
      using "1.IH" [OF pw refl Some] by simp
    then show ?thesis
      using pw Some by (subst domain_walk.simps, subst domain_keys.simps) simp
  qed
qed

lemma path_keys_length: "k \<in> set (path_keys s2) \<Longrightarrow> length k \<le> length s2"
proof (induction s2 rule: path_keys.induct)
  case (1 s2)
  from "1.prems" show ?case
  proof (subst (asm) path_keys.simps, cases "s2 = []")
    case True
    assume "k \<in> set (s2 # (if s2 = [] then []
           else (case strings_LastIndex (butlast s2) CHR ''/'' of
                   None \<Rightarrow> []
                 | Some slash \<Rightarrow> path_keys (take (slash + 1) s2))))"
    then show ?thesis using True by simp
  next
    case False
    assume a: "k \<in> set (s2 # (if s2 = [] then []
           else (case strings_LastIndex (butlast s2) CHR ''/'' of
                   None \<Rightarrow> []
                 | Some slash \<Rightarrow> path_keys (take (slash + 1) s2))))"
    show ?thesis
    proof (cases "strings_LastIndex (butlast s2) CHR ''/''")
      case None
      then show ?thesis using a False by simp
    next
      case (Some slash)
      then have "k = s2 \<or> k \<in> set (path_keys (take (slash + 1) s2))"
        using a False by simp
      then show ?thesis
      proof
        assume "k = s2"
        then show ?thesis by simp
      next
        assume "k \<in> set (path_keys (take (slash + 1) s2))"
        then have "length k \<le> length (take (slash + 1) s2)"
          using "1.IH" [OF False Some] by simp
        then show ?thesis by simp
      qed
    qed
  qed
qed

lemma domain_keys_length: "k \<in> set (domain_keys path s) \<Longrightarrow> length k \<le> length s + length path"
proof (induction path s rule: domain_keys.induct)
  case (1 path s)
  have a: "k \<in> set (path_keys (s @ path)) \<or> k = s
           \<or> k \<in> set (case strings_Index s CHR ''.'' of
                         None \<Rightarrow> []
                       | Some dot \<Rightarrow> domain_keys path (drop (dot + 1) s))"
    using "1.prems" by (subst (asm) domain_keys.simps) auto
  show ?case
  proof (cases "strings_Index s CHR ''.''")
    case None
    then show ?thesis
      using a path_keys_length [of k "s @ path"] by auto
  next
    case (Some dot)
    have "k \<in> set (domain_keys path (drop (dot + 1) s)) \<Longrightarrow>
            length k \<le> length (drop (dot + 1) s) + length path"
      using "1.IH" [OF Some] by simp
    then show ?thesis
      using a Some path_keys_length [of k "s @ path"] by auto
  qed
qed

lemma domain_keys_self: "s \<in> set (domain_keys path s)"
  by (subst domain_keys.simps) simp

lemma takeWhile_up_to: "c \<notin> set x \<Longrightarrow> takeWhile (\<lambda>y. y \<noteq> c) (x @ c # rest) = x"
  by (induction x) auto

lemma strings_Index_first:
  "sep \<notin> set x \<Longrightarrow> strings_Index (x @ sep # rest) sep = Some (length x)"
  by (simp add: strings_Index_def takeWhile_up_to)

lemma domain_keys_parent: "h1 \<in> set (domain_keys path (x @ CHR ''.'' # h1))"
proof (induction "length x" arbitrary: x rule: less_induct)
  case less
  let ?a = "takeWhile (\<lambda>c. c \<noteq> CHR ''.'') x"
  let ?b = "dropWhile (\<lambda>c. c \<noteq> CHR ''.'') x"
  have x: "x = ?a @ ?b" by simp
  have a: "CHR ''.'' \<notin> set ?a"
    by (auto dest: set_takeWhileD)
  show ?case
  proof (cases ?b)
    case Nil
    then have "CHR ''.'' \<notin> set x"
      using a x by (metis append_Nil2)
    then have "strings_Index (x @ CHR ''.'' # h1) CHR ''.'' = Some (length x)"
      by (rule strings_Index_first)
    then show ?thesis
      by (subst domain_keys.simps) (simp add: domain_keys_self)
  next
    case (Cons c rest)
    then have "c = CHR ''.''"
      using hd_dropWhile [of "\<lambda>c. c \<noteq> CHR ''.''" x] by auto
    then have whole: "x @ CHR ''.'' # h1 = ?a @ CHR ''.'' # (rest @ CHR ''.'' # h1)"
      using x Cons by (metis append_Cons append_assoc)
    have "length rest < length x"
      using x Cons by (metis length_append length_Cons less_add_Suc2 add.commute less_SucI
          trans_less_add2 lessI)
    then have IH: "h1 \<in> set (domain_keys path (rest @ CHR ''.'' # h1))"
      by (rule less.hyps)
    have "strings_Index (?a @ CHR ''.'' # (rest @ CHR ''.'' # h1)) CHR ''.'' = Some (length ?a)"
      using a by (rule strings_Index_first)
    then show ?thesis
      unfolding whole by (subst domain_keys.simps) (simp add: IH)
  qed
qed

subsection \<open>Matchers made by AddRule\<close>

lemma newRegexMap_no_fragment_rules: "no_fragment_rules newRegexMap"
  by (simp add: no_fragment_rules_def newRegexMap_def)

lemma addRule_no_fragment_rules:
  "no_fragment_rules rm \<Longrightarrow> t r \<noteq> urlMatch \<Longrightarrow> no_fragment_rules (addRule l rm r)"
  unfolding no_fragment_rules_def addRule_rules
  by (auto simp: entry_def split: if_splits)

lemma newURLMatcher_well_formed: "well_formed newURLMatcher"
  by (simp add: well_formed_def newURLMatcher_def newRegexMap_no_fragment_rules)

lemma AddRule_well_formed: "well_formed m \<Longrightarrow> well_formed (AddRule l m r)"
  by (cases "t r") (auto simp: well_formed_def AddRule_def addRule_no_fragment_rules)

lemma URLMatcher_of_well_formed: "well_formed (URLMatcher_of l rs)"
proof -
  have "well_formed m \<Longrightarrow> well_formed (foldl (AddRule l) m rs)" for m
    by (induction rs arbitrary: m) (simp_all add: AddRule_well_formed)
  then show ?thesis
    by (simp add: URLMatcher_of_def newURLMatcher_well_formed)
qed

lemma findMatches_no_fragment:
  assumes "no_fragment_rules rm" and "t r = urlMatch"
  shows "findMatches l rm s tally r = tally r"
proof -
  have "r \<notin> hits l rm s q" for q
    using assms by (auto simp: hits_def no_fragment_rules_def)
  then show ?thesis
    by (simp add: findMatches_tally_add tally_add_def)
qed

lemma regex_tiers_no_fragment:
  assumes "well_formed m" and "t r = urlMatch"
  shows "regex_tiers l m u host r = None"
  using assms
  by (simp add: regex_tiers_def Let_def split_def well_formed_def findMatches_no_fragment)

lemma MatchingRules_keys:
  assumes "walk_safe (strings_ToLower l (Path u)) (normal_host l u)"
  shows "MatchingRules l m u
     = Inr (foldl (\<lambda>acc k. mark (fragments m) k acc) (regex_tiers l m u (normal_host l u))
              (domain_keys (strings_ToLower l (Path u)) (normal_host l u)))"
  using assms by (simp add: MatchingRules_def Let_def domain_walk_keys)

lemma strings_LastIndex_None: "sep \<notin> set s \<Longrightarrow> strings_LastIndex s sep = None"
  by (simp add: strings_LastIndex_def)

lemma plain_host_normal: "plain_host l (Host u) \<Longrightarrow> normal_host l u = Host u"
  by (simp add: plain_host_def normal_host_def strip_port_def decode_idn_def
      strings_LastIndex_None)

lemma strings_Contains_byte: "strings_Contains s [c] \<longleftrightarrow> c \<in> set s"
  by (induction s) auto

lemma strings_Contains_append: "strings_Contains s sub \<Longrightarrow> strings_Contains (x @ s) sub"
  by (induction x) auto

subsection \<open>The URL matcher\<close>

lemma http_url_sel:
  "Scheme (http_url host path) = ''http''" "Host (http_url host path) = host"
  "Path (http_url host path) = path" "RawQuery (http_url host path) = []"
  by (simp_all add: http_url_def)

lemma MatchingRules_fragment:
  assumes wf: "well_formed m" and key: "fragments m key = Some r"
    and safe: "walk_safe (strings_ToLower l (Path u)) (normal_host l u)"
  shows "\<exists>tally. MatchingRules l m u = Inr tally
           \<and> tally r = (if key \<in> set (domain_keys (strings_ToLower l (Path u)) (normal_host l u))
                        then Some 1 else None)"
proof -
  let ?keys = "domain_keys (strings_ToLower l (Path u)) (normal_host l u)"
  let ?tally = "foldl (\<lambda>acc k. mark (fragments m) k acc) (regex_tiers l m u (normal_host l u)) ?keys"
  have r: "t r = urlMatch" "content r = key"
    using wf key by (auto simp: well_formed_def)
  have "fragments m k = Some r \<longleftrightarrow> k = key" for k
    using wf key r by (auto simp: well_formed_def)
  then have "(\<exists>k\<in>set ?keys. fragments m k = Some r) \<longleftrightarrow> key \<in> set ?keys"
    by simp
  moreover have "regex_tiers l m u (normal_host l u) r = None"
    using wf r(1) by (rule regex_tiers_no_fragment)
  ultimately have "?tally r = (if key \<in> set ?keys then Some 1 else None)"
    by (simp add: marks_apply)
  moreover have "MatchingRules l m u = Inr ?tally"
    using safe by (rule MatchingRules_keys)
  ultimately show ?thesis by blast
qed

lemma plain_example_com: "plain_host l ''example.com''"
  by (simp add: plain_host_def strings_ToLower_def is_ascii_def lower_byte_def)

lemma keys_sub:
  "domain_keys ''/sub'' ''example.com''
     = [''example.com/sub'', ''example.com/'', ''example.com'', ''com/sub'', ''com/'', ''com'']"
  by (simp add: domain_keys.simps path_keys.simps strings_Index_def strings_LastIndex_def)

lemma keys_sub_x:
  "domain_keys ''/sub/x'' ''example.com''
     = [''example.com/sub/x'', ''example.com/sub/'', ''example.com/'', ''example.com'',
        ''com/sub/x'', ''com/sub/'', ''com/'', ''com'']"
  by (simp add: domain_keys.simps path_keys.simps strings_Index_def strings_LastIndex_def)

lemma keys_subpath:
  "domain_keys ''/subpath'' ''example.com''
     = [''example.com/subpath'', ''example.com/'', ''example.com'', ''com/subpath'', ''com/'',
        ''com'']"
  by (simp add: domain_keys.simps path_keys.simps strings_Index_def strings_LastIndex_def)

lemma lower_sub: "strings_ToLower l ''/sub'' = ''/sub''"
  and lower_sub_x: "strings_ToLower l ''/sub/x'' = ''/sub/x''"
  and lower_subpath: "strings_ToLower l ''/subpath'' = ''/subpath''"
  by (simp_all add: strings_ToLower_def is_ascii_def lower_byte_def)

text \<open>
  Claim C5, as amended. The rule registered under \<^verbatim>\<open>example.com/sub\<close> is in the tally
  of \<^verbatim>\<open>http://example.com/sub\<close>, and it is neither in the tally of
  \<^verbatim>\<open>http://example.com/sub/x\<close> nor in the tally of \<^verbatim>\<open>http://example.com/subpath\<close>:
  of the path \<^verbatim>\<open>/sub/x\<close> the walk tries the prefixes \<^verbatim>\<open>/sub/\<close> and \<^verbatim>\<open>/\<close>, which
  keep their final slash. This holds in every matcher made by \<^verbatim>\<open>AddRule\<close>, whatever
  other rules it holds.
\<close>

theorem fragment_with_path_matches:
  assumes "fragments (URLMatcher_of l rs) ''example.com/sub'' = Some r"
  shows "(\<exists>tally. MatchingRules l (URLMatcher_of l rs) (http_url ''example.com'' ''/sub'') = Inr tally
            \<and> tally r = Some 1)
       \<and> (\<exists>tally. MatchingRules l (URLMatcher_of l rs) (http_url ''example.com'' ''/sub/x'') = Inr tally
            \<and> tally r = None)
       \<and> (\<exists>tally. MatchingRules l (URLMatcher_of l rs) (http_url ''example.com'' ''/subpath'') = Inr tally
            \<and> tally r = None)"
proof -
  have host: "normal_host l (http_url ''example.com'' path) = ''example.com''" for path
    using plain_host_normal [of l "http_url ''example.com'' path"] plain_example_com
    by (simp add: http_url_sel)
  have wf: "well_formed (URLMatcher_of l rs)"
    by (rule URLMatcher_of_well_formed)
  have "\<exists>tally. MatchingRules l (URLMatcher_of l rs) (http_url ''example.com'' ''/sub'') = Inr tally
            \<and> tally r = Some 1"
    using MatchingRules_fragment [OF wf assms, of l "http_url ''example.com'' ''/sub''"]
    by (simp add: host walk_safe_def http_url_sel lower_sub keys_sub)
  moreover
  have "\<exists>tally. MatchingRules l (URLMatcher_of l rs) (http_url ''example.com'' ''/sub/x'') = Inr tally
            \<and> tally r = None"
    using MatchingRules_fragment [OF wf assms, of l "http_url ''example.com'' ''/sub/x''"]
    by (simp add: host walk_safe_def http_url_sel lower_sub_x keys_sub_x)
  moreover
  have "\<exists>tally. MatchingRules l (URLMatcher_of l rs) (http_url ''example.com'' ''/subpath'') = Inr tally
            \<and> tally r = None"
    using MatchingRules_fragment [OF wf assms, of l "http_url ''example.com'' ''/subpath''"]
    by (simp add: host walk_safe_def http_url_sel lower_subpath keys_subpath)
  ultimately show ?thesis by blast
qed

lemma sub_rule_registered:
  "fragments (URLMatcher_of literal_lib [sub_rule]) ''example.com/sub'' = Some sub_rule"
  by (simp add: URLMatcher_of_def AddRule_def sub_rule_def)

text \<open>
  Claim C5, as stated, fails: with the rule \<^verbatim>\<open>example.com/sub\<close> registered,
  \<^verbatim>\<open>MatchingRules\<close> on \<^verbatim>\<open>http://example.com/sub/x\<close> returns a tally without it.
\<close>

theorem fragment_sub_x_counterexample:
  "fragments (URLMatcher_of literal_lib [sub_rule]) ''example.com/sub'' = Some sub_rule
   \<and> (case MatchingRules literal_lib (URLMatcher_of literal_lib [sub_rule])
             (http_url ''example.com'' ''/sub/x'') of
        Inl p \<Rightarrow> False
      | Inr tally \<Rightarrow> tally sub_rule = None)"
proof -
  have host: "normal_host literal_lib (http_url ''example.com'' ''/sub/x'') = ''example.com''"
    using plain_host_normal [of literal_lib "http_url ''example.com'' ''/sub/x''"] plain_example_com
    by (simp add: http_url_sel)
  have "\<exists>tally. MatchingRules literal_lib (URLMatcher_of literal_lib [sub_rule])
            (http_url ''example.com'' ''/sub/x'') = Inr tally \<and> tally sub_rule = None"
    using MatchingRules_fragment [OF URLMatcher_of_well_formed sub_rule_registered,
        of literal_lib "http_url ''example.com'' ''/sub/x''"]
    by (simp add: host walk_safe_def http_url_sel lower_sub_x keys_sub_x)
  then show ?thesis
    using sub_rule_registered by auto
qed

text \<open>The amended claim C5 on the matcher that holds this one rule.\<close>

theorem fragment_with_path_matches_witness:
  "(case MatchingRules literal_lib (URLMatcher_of literal_lib [sub_rule])
           (http_url ''example.com'' ''/sub'') of
      Inl p \<Rightarrow> False
    | Inr tally \<Rightarrow> tally sub_rule = Some 1)
   \<and> (case MatchingRules literal_lib (URLMatcher_of literal_lib [sub_rule])
             (http_url ''example.com'' ''/subpath'') of
        Inl p \<Rightarrow> False
      | Inr tally \<Rightarrow> tally sub_rule = None)"
  using fragment_with_path_matches [OF sub_rule_registered] by auto

lemma strings_Contains_sublist: "strings_Contains s sub \<longleftrightarrow> sublist sub s"
  by (induction s) (auto simp: sublist_Cons_right)

lemma literal_lib_literals_required: "literals_required literal_lib"
  by (auto simp: literals_required_def literal_lib_def strings_Contains_sublist)

text \<open>
  Claim C2 on the library of the examples, whose literals are required: on the text
  \<^verbatim>\<open>ads.example.com\<close> the tally of \<^verbatim>\<open>findMatches\<close> holds the rule \<^verbatim>\<open>ads\<close> and the
  rule without a literal, and neither the rule that does not match nor the one that did
  not compile.
\<close>

theorem findMatches_is_each_regex_alone_witness:
  "literals_required literal_lib
   \<and> findMatches literal_lib
        (regexMap_of literal_lib [ads_rule, any_rule, broken_rule, shop_rule])
        ''ads.example.com'' Map.empty
      = [ads_rule \<mapsto> 1, any_rule \<mapsto> 1]"
proof -
  have "each_regex_alone literal_lib [ads_rule, any_rule, broken_rule, shop_rule]
          ''ads.example.com'' Map.empty
      = [ads_rule \<mapsto> 1, any_rule \<mapsto> 1]"
    by (simp add: each_regex_alone_def literal_lib_def ads_rule_def any_rule_def
        broken_rule_def shop_rule_def)
  then show ?thesis
    using findMatches_is_each_regex_alone [OF literal_lib_literals_required,
        of "[ads_rule, any_rule, broken_rule, shop_rule]" "''ads.example.com''" Map.empty]
      literal_lib_literals_required
    by simp
qed

lemma strings_LastIndex_last:
  "sep \<notin> set b \<Longrightarrow> strings_LastIndex (a @ sep # b) sep = Some (length a)"
proof -
  assume "sep \<notin> set b"
  then have "takeWhile (\<lambda>c. c \<noteq> sep) (rev b @ sep # rev a) = rev b"
    using takeWhile_up_to [of sep "rev b" "rev a"] by simp
  then show ?thesis
    by (simp add: strings_LastIndex_def)
qed

subsection \<open>Lowering\<close>

lemma is_ascii_bounds: "is_ascii c \<longleftrightarrow> (of_char c :: nat) < 128"
proof (cases c)
  case (Char b0 b1 b2 b3 b4 b5 b6 b7)
  then show ?thesis
    by (cases b7) (simp_all add: is_ascii_def)
qed

lemma strings_ToLower_Nil: "strings_ToLower l [] = []"
  by (simp add: strings_ToLower_def)

lemma punctuation_facts:
  "is_ascii CHR '':''" "is_ascii CHR '']''" "is_ascii CHR ''.''"
  "lower_byte CHR '':'' = CHR '':''" "lower_byte CHR '']'' = CHR '']''"
  "lower_byte CHR ''.'' = CHR ''.''"
  by (simp_all add: is_ascii_def lower_byte_def)

lemma lower_split:
  "lower_is_rune_wise l \<Longrightarrow> is_ascii c \<Longrightarrow>
     strings_ToLower l (a @ c # b) = strings_ToLower l a @ lower_byte c # strings_ToLower l b"
  by (simp add: lower_is_rune_wise_def)

lemma lower_no_new_colon:
  "lower_is_rune_wise l \<Longrightarrow> CHR '':'' \<notin> set s \<Longrightarrow> CHR '':'' \<notin> set (strings_ToLower l s)"
  unfolding lower_is_rune_wise_def
  using punctuation_facts(1) by fastforce

lemma lower_no_new_bracket:
  "lower_is_rune_wise l \<Longrightarrow> CHR '']'' \<notin> set s \<Longrightarrow> CHR '']'' \<notin> set (strings_ToLower l s)"
  unfolding lower_is_rune_wise_def
  using punctuation_facts(2) by fastforce

lemma lower_port:
  "lower_is_rune_wise l \<Longrightarrow>
     strings_ToLower l (h @ '':'' @ p) = strings_ToLower l h @ '':'' @ strings_ToLower l p"
  using lower_split [of l "CHR '':''" h p] by (simp add: punctuation_facts)

lemma lower_dot:
  "lower_is_rune_wise l \<Longrightarrow>
     strings_ToLower l (a @ CHR ''.'' # b) = strings_ToLower l a @ CHR ''.'' # strings_ToLower l b"
  using lower_split [of l "CHR ''.''" a b] by (simp add: punctuation_facts)

lemma lower_last_bracket:
  assumes "lower_is_rune_wise l" and "s \<noteq> []" and "last s = CHR '']''"
  shows "strings_ToLower l s \<noteq> [] \<and> last (strings_ToLower l s) = CHR '']''"
proof -
  have "s = butlast s @ CHR '']'' # []"
    using assms(2,3) append_butlast_last_id [of s] by simp
  then have "strings_ToLower l s = strings_ToLower l (butlast s) @ CHR '']'' # strings_ToLower l []"
    using lower_split [OF assms(1), of "CHR '']''" "butlast s" "[]"]
    by (simp add: punctuation_facts)
  then show ?thesis
    by (simp add: strings_ToLower_Nil)
qed

lemma lower_byte_small: "lower_byte x \<notin> set ''abcdefghijklmnopqrstuvwxyz'' \<Longrightarrow> lower_byte x = x"
  by (auto simp: lower_byte_def split: option.splits if_splits)

lemma literal_lib_lower: "strings_ToLower literal_lib s = map lower_byte s"
  by (simp add: strings_ToLower_def literal_lib_def)

lemma literal_lib_rune_wise: "lower_is_rune_wise literal_lib"
proof -
  have "c \<in> set s" if "c \<in> set (map lower_byte s)" "c \<notin> set ''abcdefghijklmnopqrstuvwxyz''"
    for c s
  proof -
    from that(1) obtain x where x: "x \<in> set s" "c = lower_byte x"
      by auto
    then have "lower_byte x = x"
      using that(2) lower_byte_small by blast
    then show ?thesis using x by simp
  qed
  then show ?thesis
    unfolding lower_is_rune_wise_def literal_lib_lower by auto
qed

subsection \<open>The port\<close>

lemma without_port_lower:
  assumes "lower_is_rune_wise l" and "without_port h"
  shows "without_port (strings_ToLower l h)"
proof -
  from assms(2) consider "CHR '':'' \<notin> set h" | "h \<noteq> []" "last h = CHR '']''"
    by (auto simp: without_port_def)
  then show ?thesis
  proof cases
    case 1
    then show ?thesis
      using lower_no_new_colon [OF assms(1)] by (simp add: without_port_def)
  next
    case 2
    then show ?thesis
      using lower_last_bracket [OF assms(1)] by (simp add: without_port_def)
  qed
qed

lemma port_text_lower:
  "lower_is_rune_wise l \<Longrightarrow> port_text p \<Longrightarrow> port_text (strings_ToLower l p)"
  by (simp add: port_text_def lower_no_new_colon lower_no_new_bracket)

lemma strip_port_without_port: "without_port h \<Longrightarrow> strip_port h = h"
proof (cases "strings_LastIndex h CHR '':''")
  case None
  then show ?thesis by (simp add: strip_port_def)
next
  case (Some colon)
  assume "without_port h"
  moreover have "CHR '':'' \<in> set h"
    using Some by (auto simp: strings_LastIndex_def split: if_splits)
  ultimately have h: "h \<noteq> []" "last h = CHR '']''"
    by (auto simp: without_port_def)
  have "colon < length h"
    using Some by (rule strings_LastIndex_less)
  then have "drop colon h \<noteq> []" and "last (drop colon h) = CHR '']''"
    using h by (simp_all add: last_drop)
  then have "CHR '']'' \<in> set (drop colon h)"
    using last_in_set by metis
  then show ?thesis
    using Some by (simp add: strip_port_def strings_Contains_byte)
qed

lemma strip_port_with_port: "port_text p \<Longrightarrow> strip_port (h @ '':'' @ p) = h"
proof -
  assume p: "port_text p"
  then have "strings_LastIndex (h @ CHR '':'' # p) CHR '':'' = Some (length h)"
    by (simp add: strings_LastIndex_last port_text_def)
  then show ?thesis
    using p by (simp add: strip_port_def strings_Contains_byte port_text_def)
qed

lemma strip_port_lower_port:
  assumes "lower_is_rune_wise l" and "port_text p"
  shows "strip_port (strings_ToLower l (h @ '':'' @ p)) = strings_ToLower l h"
  using strip_port_with_port [OF port_text_lower [OF assms], of "strings_ToLower l h"]
  by (simp only: lower_port [OF assms(1)])

lemma normal_host_with_port:
  assumes "lower_is_rune_wise l" and "port_text p"
  shows "normal_host l (u\<lparr>Host := h @ '':'' @ p\<rparr>) = decode_idn l (strings_ToLower l h)"
  using strip_port_lower_port [OF assms, of h] by (simp add: normal_host_def)

lemma normal_host_without_port:
  assumes "lower_is_rune_wise l" and "without_port h"
  shows "normal_host l (u\<lparr>Host := h\<rparr>) = decode_idn l (strings_ToLower l h)"
  using strip_port_without_port [OF without_port_lower [OF assms]] by (simp add: normal_host_def)

lemma findMatches_keeps_one:
  "tally r = Some 1 \<Longrightarrow> findMatches l rm s tally r = Some 1"
  by (simp add: findMatches_tally_add tally_add_def)

lemma regex_tiers_host_tier:
  assumes "host \<noteq> []" and "findMatches l (hostRegexes m) host Map.empty r = Some 1"
  shows "regex_tiers l m u host r = Some 1"
  using assms by (simp add: regex_tiers_def Let_def split_def findMatches_keeps_one)

lemma marks_keep_one:
  "result r = Some 1 \<Longrightarrow> foldl (\<lambda>acc k. mark fr k acc) result ks r = Some 1"
  by (simp add: marks_apply)

lemma regex_tiers_Host: "regex_tiers l m (u\<lparr>Host := h\<rparr>) host = regex_tiers l m u host"
  by (simp add: regex_tiers_def)

text \<open>
  Claim C8. Let the lowering of the library be rune-wise, \<open>h\<close> a host without a port and
  \<open>p\<close> the text of a port. Then, for the URL with host \<open>h:p\<close>: the host that the
  tiers and the walk work on is the lowered and decoded \<open>h\<close>, with nothing of the port
  and all of \<open>h\<close>; the result of \<^verbatim>\<open>MatchingRules\<close>, a tally or a panic, is the result
  for the URL with host \<open>h\<close>; a fragment rule registered under that host is in the
  tally, and so is every rule that the host tier finds on that host; and of a bracketed
  IPv6 host the cut takes the port after the closing bracket and nothing else, and takes
  nothing when there is no port.
\<close>

theorem port_is_ignored:
  assumes "lower_is_rune_wise l" and "without_port h" and "port_text p"
  shows "normal_host l (u\<lparr>Host := h @ '':'' @ p\<rparr>) = decode_idn l (strings_ToLower l h)
       \<and> MatchingRules l m (u\<lparr>Host := h @ '':'' @ p\<rparr>) = MatchingRules l m (u\<lparr>Host := h\<rparr>)
       \<and> (fragments m (decode_idn l (strings_ToLower l h)) = Some r
            \<and> walk_safe (strings_ToLower l (Path u)) (decode_idn l (strings_ToLower l h)) \<longrightarrow>
          (\<exists>tally. MatchingRules l m (u\<lparr>Host := h @ '':'' @ p\<rparr>) = Inr tally \<and> tally r = Some 1))
       \<and> (decode_idn l (strings_ToLower l h) \<noteq> []
            \<and> findMatches l (hostRegexes m) (decode_idn l (strings_ToLower l h)) Map.empty r = Some 1
            \<and> walk_safe (strings_ToLower l (Path u)) (decode_idn l (strings_ToLower l h)) \<longrightarrow>
          (\<exists>tally. MatchingRules l m (u\<lparr>Host := h @ '':'' @ p\<rparr>) = Inr tally \<and> tally r = Some 1))
       \<and> strip_port (strings_ToLower l (''['' @ a @ '']'' @ '':'' @ p)) = strings_ToLower l (''['' @ a @ '']'')
       \<and> strip_port (strings_ToLower l (''['' @ a @ '']'')) = strings_ToLower l (''['' @ a @ '']'')"
proof -
  let ?H = "decode_idn l (strings_ToLower l h)"
  let ?up = "u\<lparr>Host := h @ '':'' @ p\<rparr>"
  let ?path = "strings_ToLower l (Path u)"
  have host: "normal_host l ?up = ?H"
    using assms(1,3) by (rule normal_host_with_port)
  have host': "normal_host l (u\<lparr>Host := h\<rparr>) = ?H"
    using assms(1,2) by (rule normal_host_without_port)
  have same: "MatchingRules l m ?up = MatchingRules l m (u\<lparr>Host := h\<rparr>)"
    unfolding MatchingRules_def Let_def host host' by (simp add: regex_tiers_Host)
  have tally: "MatchingRules l m ?up
      = Inr (foldl (\<lambda>acc k. mark (fragments m) k acc) (regex_tiers l m u ?H) (domain_keys ?path ?H))"
    if "walk_safe ?path ?H"
    using MatchingRules_keys [of l ?up m] that by (simp add: host [simplified] regex_tiers_Host)
  have frag: "\<exists>tally. MatchingRules l m ?up = Inr tally \<and> tally r = Some 1"
    if "fragments m ?H = Some r" "walk_safe ?path ?H"
  proof -
    have "\<exists>k\<in>set (domain_keys ?path ?H). fragments m k = Some r"
      using that(1) domain_keys_self [of ?H ?path] by blast
    then show ?thesis
      using tally [OF that(2)] by (simp add: marks_apply)
  qed
  have tier: "\<exists>tally. MatchingRules l m ?up = Inr tally \<and> tally r = Some 1"
    if "?H \<noteq> []" "findMatches l (hostRegexes m) ?H Map.empty r = Some 1" "walk_safe ?path ?H"
  proof -
    have "regex_tiers l m u ?H r = Some 1"
      using that(1,2) by (rule regex_tiers_host_tier)
    then show ?thesis
      using tally [OF that(3)] by (simp add: marks_keep_one)
  qed
  have b: "without_port (''['' @ a @ '']'')"
    by (simp add: without_port_def)
  have "strip_port (strings_ToLower l ((''['' @ a @ '']'') @ '':'' @ p))
      = strings_ToLower l (''['' @ a @ '']'')"
    using assms(1,3) by (rule strip_port_lower_port)
  then have v6: "strip_port (strings_ToLower l (''['' @ a @ '']'' @ '':'' @ p))
      = strings_ToLower l (''['' @ a @ '']'')"
    by simp
  have v6': "strip_port (strings_ToLower l (''['' @ a @ '']'')) = strings_ToLower l (''['' @ a @ '']'')"
    using without_port_lower [OF assms(1) b] by (rule strip_port_without_port)
  show ?thesis
    using host same frag tier v6 v6' by blast
qed

lemma host_rule_registered:
  "fragments (URLMatcher_of literal_lib [host_rule]) ''example.com'' = Some host_rule"
  by (simp add: URLMatcher_of_def AddRule_def host_rule_def)

text \<open>
  Claim C8 on \<^verbatim>\<open>Example.COM:8080\<close> and on \<^verbatim>\<open>[2001:DB8::1]:8080\<close>: the rule registered
  under \<^verbatim>\<open>example.com\<close> is in the tally of the URL with the port, and the host of the
  second URL is the whole bracketed address.
\<close>

theorem port_is_ignored_witness:
  "lower_is_rune_wise literal_lib \<and> without_port ''Example.COM'' \<and> port_text ''8080''
   \<and> normal_host literal_lib (http_url ''Example.COM:8080'' ''/index.html'') = ''example.com''
   \<and> (case MatchingRules literal_lib (URLMatcher_of literal_lib [host_rule])
             (http_url ''Example.COM:8080'' ''/index.html'') of
        Inl panicked \<Rightarrow> False
      | Inr tally \<Rightarrow> tally host_rule = Some 1)
   \<and> strip_port (strings_ToLower literal_lib ''[2001:DB8::1]:8080'') = ''[2001:db8::1]''"
proof -
  have h: "without_port ''Example.COM''"
    by (simp add: without_port_def)
  have p: "port_text ''8080''"
    by (simp add: port_text_def)
  have low: "decode_idn literal_lib (strings_ToLower literal_lib ''Example.COM'') = ''example.com''"
    by (simp add: decode_idn_def literal_lib_lower lower_byte_def)
  have low6: "strings_ToLower literal_lib ''[2001:DB8::1]'' = ''[2001:db8::1]''"
    by (simp add: literal_lib_lower lower_byte_def)
  have path: "strings_ToLower literal_lib ''/index.html'' = ''/index.html''"
    by (simp add: literal_lib_lower lower_byte_def)
  have u: "(http_url ''example.com'' ''/index.html'')\<lparr>Host := ''Example.COM:8080''\<rparr>
      = http_url ''Example.COM:8080'' ''/index.html''"
    by (simp add: http_url_def)
  note inst = port_is_ignored [OF literal_lib_rune_wise h p,
      of "http_url ''example.com'' ''/index.html''" "URLMatcher_of literal_lib [host_rule]"
        host_rule "''2001:DB8::1''"]
  have n: "normal_host literal_lib (http_url ''Example.COM:8080'' ''/index.html'') = ''example.com''"
    using inst [THEN conjunct1] by (simp add: low u)
  have pre: "fragments (URLMatcher_of literal_lib [host_rule])
        (decode_idn literal_lib (strings_ToLower literal_lib ''Example.COM'')) = Some host_rule
      \<and> walk_safe (strings_ToLower literal_lib (Path (http_url ''example.com'' ''/index.html'')))
          (decode_idn literal_lib (strings_ToLower literal_lib ''Example.COM''))"
    by (simp add: low path http_url_sel walk_safe_def host_rule_registered)
  have "\<exists>tally. MatchingRules literal_lib (URLMatcher_of literal_lib [host_rule])
            (http_url ''Example.COM:8080'' ''/index.html'') = Inr tally \<and> tally host_rule = Some 1"
    using inst [THEN conjunct2, THEN conjunct2, THEN conjunct1, THEN mp, OF pre] by (simp add: u)
  then have f: "(case MatchingRules literal_lib (URLMatcher_of literal_lib [host_rule])
             (http_url ''Example.COM:8080'' ''/index.html'') of
        Inl panicked \<Rightarrow> False
      | Inr tally \<Rightarrow> tally host_rule = Some 1)"
    by auto
  have v6: "strip_port (strings_ToLower literal_lib ''[2001:DB8::1]:8080'') = ''[2001:db8::1]''"
    using inst [THEN conjunct2, THEN conjunct2, THEN conjunct2, THEN conjunct2, THEN conjunct1]
    by (simp add: low6)
  show ?thesis
    using literal_lib_rune_wise h p n f v6 by simp
qed

subsection \<open>Labels\<close>

lemma strings_Split_not_Nil: "strings_Split s sep \<noteq> []"
  by (induction s) (auto split: list.splits)

lemma strings_Split_append:
  "strings_Split (a @ sep # b) sep = strings_Split a sep @ strings_Split b sep"
proof (induction a)
  case Nil
  then show ?case by simp
next
  case (Cons x a)
  obtain piece pieces where sp: "strings_Split a sep = piece # pieces"
    using strings_Split_not_Nil [of a sep] by (cases "strings_Split a sep") auto
  show ?case
    using Cons sp by simp
qed

lemma strings_Join_Cons:
  "pieces \<noteq> [] \<Longrightarrow> strings_Join (piece # pieces) sep = piece @ sep @ strings_Join pieces sep"
  by (cases pieces) simp_all

lemma strings_Join_append:
  "xs \<noteq> [] \<Longrightarrow> ys \<noteq> [] \<Longrightarrow>
     strings_Join (xs @ ys) sep = strings_Join xs sep @ sep @ strings_Join ys sep"
proof (induction xs)
  case Nil
  then show ?case by simp
next
  case (Cons x xs)
  show ?case
  proof (cases "xs = []")
    case True
    then show ?thesis using Cons.prems by (simp add: strings_Join_Cons)
  next
    case False
    then show ?thesis
      using Cons by (simp add: strings_Join_Cons)
  qed
qed

lemma strings_Join_Split: "strings_Join (strings_Split s sep) [sep] = s"
proof (induction s)
  case Nil
  then show ?case by simp
next
  case (Cons x s)
  obtain piece pieces where sp: "strings_Split s sep = piece # pieces"
    using strings_Split_not_Nil [of s sep] by (cases "strings_Split s sep") auto
  show ?case
  proof (cases "x = sep")
    case True
    then show ?thesis
      using Cons sp by (simp add: strings_Join_Cons)
  next
    case False
    show ?thesis
    proof (cases "pieces = []")
      case True
      then show ?thesis using Cons sp False by simp
    next
      case nonempty: False
      then show ?thesis
        using Cons sp False by (simp add: strings_Join_Cons)
    qed
  qed
qed

lemma labels_kept_map:
  "labels_kept l h \<Longrightarrow> map (decode_label l) (strings_Split h CHR ''.'') = strings_Split h CHR ''.''"
  by (simp add: labels_kept_def list_all_iff map_idI)

lemma decode_idn_kept:
  assumes "strings_ToLower l h = h" and "labels_kept l h"
  shows "decode_idn l h = h"
  using assms by (simp add: decode_idn_def labels_kept_map strings_Join_Split)

lemma decode_idn_parent:
  assumes rw: "lower_is_rune_wise l" and low: "strings_ToLower l h1 = h1"
    and kept: "labels_kept l h1"
  shows "\<exists>y. decode_idn l (x @ CHR ''.'' # h1) = y @ CHR ''.'' # h1"
proof (cases "strings_Contains (x @ CHR ''.'' # h1) ''xn--''")
  case False
  then show ?thesis by (simp add: decode_idn_def)
next
  case True
  let ?front = "map (decode_label l) (strings_Split x CHR ''.'')"
  have "map (decode_label l) (strings_Split (x @ CHR ''.'' # h1) CHR ''.'')
      = ?front @ strings_Split h1 CHR ''.''"
    by (simp add: strings_Split_append labels_kept_map [OF kept])
  moreover have "?front \<noteq> []" and "strings_Split h1 CHR ''.'' \<noteq> []"
    by (simp_all add: strings_Split_not_Nil)
  ultimately have "strings_Join (map (decode_label l) (strings_Split (x @ CHR ''.'' # h1) CHR ''.'')) ''.''
      = strings_Join ?front ''.'' @ CHR ''.'' # h1"
    by (simp add: strings_Join_append strings_Join_Split)
  then have "decode_idn l (x @ CHR ''.'' # h1)
      = strings_ToLower l (strings_Join ?front ''.'') @ CHR ''.'' # h1"
    using True by (simp add: decode_idn_def lower_dot [OF rw] low)
  then show ?thesis by blast
qed

lemma normal_host_parent:
  assumes rw: "lower_is_rune_wise l" and low: "strings_ToLower l h1 = h1"
    and kept: "labels_kept l h1" and colon: "CHR '':'' \<notin> set (x @ ''.'' @ h1)"
    and host: "Host u = x @ ''.'' @ h1"
  shows "\<exists>y. normal_host l u = y @ CHR ''.'' # h1"
proof -
  have lowered: "strings_ToLower l (Host u) = strings_ToLower l x @ CHR ''.'' # h1"
    using host lower_dot [OF rw, of x h1] low by simp
  have "CHR '':'' \<notin> set (strings_ToLower l x)"
    using colon lower_no_new_colon [OF rw, of x] by simp
  then have "CHR '':'' \<notin> set (strings_ToLower l x @ CHR ''.'' # h1)"
    using colon by simp
  then have "strip_port (strings_ToLower l x @ CHR ''.'' # h1) = strings_ToLower l x @ CHR ''.'' # h1"
    by (simp add: strip_port_def strings_LastIndex_None)
  then have "normal_host l u = decode_idn l (strings_ToLower l x @ CHR ''.'' # h1)"
    by (simp add: normal_host_def lowered)
  then show ?thesis
    using decode_idn_parent [OF rw low kept, of "strings_ToLower l x"] by simp
qed

lemma normal_host_kept:
  assumes low: "strings_ToLower l h1 = h1" and kept: "labels_kept l h1"
    and colon: "CHR '':'' \<notin> set h1" and host: "Host u = h1"
  shows "normal_host l u = h1"
  using assms by (simp add: normal_host_def strip_port_def strings_LastIndex_None decode_idn_kept)

subsection \<open>Subdomains\<close>

text \<open>
  Claim C9, as amended. Let the lowering of the library be rune-wise. Let \<open>h1\<close> be a
  host that \<^verbatim>\<open>strings.ToLower\<close> does not change, without a colon, none of whose labels
  the Punycode step changes, not empty and not ending in a dot; and let \<open>x\<close> be any
  text without a colon, capitals and labels in Punycode included. In every matcher made
  by \<^verbatim>\<open>AddRule\<close>, the rule registered under \<open>h1\<close> is in the tally of a URL with host
  \<open>x.h1\<close> and an empty path, and the rule registered under \<open>x.h1\<close> is not in the
  tally of a URL with host \<open>h1\<close> and an empty path.
\<close>

theorem subdomain_matches_parent_rule:
  assumes "lower_is_rune_wise l"
    and "strings_ToLower l h1 = h1" and "labels_kept l h1"
    and "CHR '':'' \<notin> set (x @ ''.'' @ h1)"
    and "h1 \<noteq> []" and "last h1 \<noteq> CHR ''.''"
  shows "(fragments (URLMatcher_of l rs) h1 = Some r \<longrightarrow>
            (\<exists>tally. MatchingRules l (URLMatcher_of l rs)
                        \<lparr>Scheme = sch, Host = x @ ''.'' @ h1, Path = [], RawQuery = q\<rparr> = Inr tally
                      \<and> tally r = Some 1))
       \<and> (fragments (URLMatcher_of l rs) (x @ ''.'' @ h1) = Some r \<longrightarrow>
            (\<exists>tally. MatchingRules l (URLMatcher_of l rs)
                        \<lparr>Scheme = sch, Host = h1, Path = [], RawQuery = q\<rparr> = Inr tally
                      \<and> tally r = None))"
proof (intro conjI impI)
  let ?m = "URLMatcher_of l rs"
  let ?u2 = "\<lparr>Scheme = sch, Host = x @ ''.'' @ h1, Path = [], RawQuery = q\<rparr>"
  let ?u1 = "\<lparr>Scheme = sch, Host = h1, Path = [], RawQuery = q\<rparr>"
  have wf: "well_formed ?m"
    by (rule URLMatcher_of_well_formed)
  obtain y where host2: "normal_host l ?u2 = y @ CHR ''.'' # h1"
    using normal_host_parent [OF assms(1,2,3,4), of ?u2] by auto
  have host1: "normal_host l ?u1 = h1"
    using normal_host_kept [OF assms(2,3), of ?u1] assms(4) by simp
  have path2: "strings_ToLower l (Path ?u2) = []" and path1: "strings_ToLower l (Path ?u1) = []"
    by (simp_all add: strings_ToLower_Nil)
  {
    assume reg: "fragments ?m h1 = Some r"
    have safe: "walk_safe (strings_ToLower l (Path ?u2)) (normal_host l ?u2)"
      unfolding path2 host2 using assms(5,6) by (simp add: walk_safe_def)
    have "h1 \<in> set (domain_keys (strings_ToLower l (Path ?u2)) (normal_host l ?u2))"
      unfolding path2 host2 by (rule domain_keys_parent)
    then show "\<exists>tally. MatchingRules l ?m ?u2 = Inr tally \<and> tally r = Some 1"
      using MatchingRules_fragment [OF wf reg safe] by simp
  }
  {
    assume reg: "fragments ?m (x @ ''.'' @ h1) = Some r"
    have safe: "walk_safe (strings_ToLower l (Path ?u1)) (normal_host l ?u1)"
      unfolding path1 host1 using assms(5,6) by (simp add: walk_safe_def)
    have "x @ ''.'' @ h1 \<notin> set (domain_keys (strings_ToLower l (Path ?u1)) (normal_host l ?u1))"
      unfolding path1 host1 using domain_keys_length [of "x @ ''.'' @ h1" "[]" h1] by auto
    then show "\<exists>tally. MatchingRules l ?m ?u1 = Inr tally \<and> tally r = None"
      using MatchingRules_fragment [OF wf reg safe] by simp
  }
qed

lemma bad_rule_registered:
  "fragments (URLMatcher_of literal_lib [bad_rule]) ''bad.com'' = Some bad_rule"
  by (simp add: URLMatcher_of_def AddRule_def bad_rule_def)

lemma idn_rule_registered:
  "fragments (URLMatcher_of literal_lib [idn_rule]) ''xn--bcher-kva.de'' = Some idn_rule"
  by (simp add: URLMatcher_of_def AddRule_def idn_rule_def)

lemma bad_com_kept:
  "strings_ToLower literal_lib ''bad.com'' = ''bad.com''" "labels_kept literal_lib ''bad.com''"
  by (simp_all add: literal_lib_lower lower_byte_def labels_kept_def decode_label_def)

text \<open>
  The amended claim C9 on the second scenario of the specification, with capitals and
  with a label in Punycode in front: the rule \<^verbatim>\<open>bad.com\<close> is in the tally of the host
  \<^verbatim>\<open>SUB.bad.com\<close> and in the tally of the host \<^verbatim>\<open>xn--bcher-kva.bad.com\<close>.
\<close>

theorem subdomain_matches_parent_rule_witness:
  "lower_is_rune_wise literal_lib
   \<and> fragments (URLMatcher_of literal_lib [bad_rule]) ''bad.com'' = Some bad_rule
   \<and> (case MatchingRules literal_lib (URLMatcher_of literal_lib [bad_rule])
             (http_url ''SUB.bad.com'' []) of
        Inl panicked \<Rightarrow> False
      | Inr tally \<Rightarrow> tally bad_rule = Some 1)
   \<and> (case MatchingRules literal_lib (URLMatcher_of literal_lib [bad_rule])
             (http_url ''xn--bcher-kva.bad.com'' []) of
        Inl panicked \<Rightarrow> False
      | Inr tally \<Rightarrow> tally bad_rule = Some 1)"
proof -
  have h1: "''bad.com'' \<noteq> []" "last ''bad.com'' \<noteq> CHR ''.''"
    by simp_all
  have c1: "CHR '':'' \<notin> set (''SUB'' @ ''.'' @ ''bad.com'')"
    and c2: "CHR '':'' \<notin> set (''xn--bcher-kva'' @ ''.'' @ ''bad.com'')"
    by simp_all
  have "\<exists>tally. MatchingRules literal_lib (URLMatcher_of literal_lib [bad_rule])
            (http_url ''SUB.bad.com'' []) = Inr tally \<and> tally bad_rule = Some 1"
    using subdomain_matches_parent_rule [OF literal_lib_rune_wise bad_com_kept c1 h1,
        of "[bad_rule]" bad_rule "''http''" "[]", THEN conjunct1, THEN mp, OF bad_rule_registered]
    by (simp add: http_url_def)
  moreover
  have "\<exists>tally. MatchingRules literal_lib (URLMatcher_of literal_lib [bad_rule])
            (http_url ''xn--bcher-kva.bad.com'' []) = Inr tally \<and> tally bad_rule = Some 1"
    using subdomain_matches_parent_rule [OF literal_lib_rune_wise bad_com_kept c2 h1,
        of "[bad_rule]" bad_rule "''http''" "[]", THEN conjunct1, THEN mp, OF bad_rule_registered]
    by (simp add: http_url_def)
  ultimately show ?thesis
    using literal_lib_rune_wise bad_rule_registered by auto
qed

lemma normal_host_idn:
  "normal_host literal_lib (http_url ''www.xn--bcher-kva.de'' []) = decoded_host"
  by (simp add: normal_host_def http_url_def strip_port_def decode_idn_def decode_label_def
      strings_ToLower_def is_ascii_def lower_byte_def strings_LastIndex_def literal_lib_def
      buecher_def decoded_host_def)

lemma keys_idn:
  "domain_keys [] decoded_host
     = [''www.'' @ buecher @ ''.de'', ''www.'' @ buecher @ ''.de'',
        buecher @ ''.de'', buecher @ ''.de'', ''de'', ''de'']"
  by (simp add: domain_keys.simps path_keys.simps strings_Index_def strings_LastIndex_def
      buecher_def decoded_host_def)

lemma idn_key_not_tried: "''xn--bcher-kva.de'' \<notin> set (domain_keys [] decoded_host)"
  unfolding keys_idn by (simp add: buecher_def)

text \<open>
  Claim C9, as stated, fails for a host in Punycode. The rule is registered under
  \<^verbatim>\<open>xn--bcher-kva.de\<close>; the host \<^verbatim>\<open>www.xn--bcher-kva.de\<close> is that host with the label
  \<^verbatim>\<open>www\<close> in front; \<^verbatim>\<open>MatchingRules\<close> decodes the label before the walk, looks up the
  decoded names, and returns a tally without the rule.
\<close>

theorem punycode_subdomain_counterexample:
  "fragments (URLMatcher_of literal_lib [idn_rule]) ''xn--bcher-kva.de'' = Some idn_rule
   \<and> (case MatchingRules literal_lib (URLMatcher_of literal_lib [idn_rule])
             (http_url (''www'' @ ''.'' @ ''xn--bcher-kva.de'') []) of
        Inl p \<Rightarrow> False
      | Inr tally \<Rightarrow> tally idn_rule = None)"
proof -
  have low: "strings_ToLower literal_lib [] = []"
    by (simp add: strings_ToLower_Nil)
  have "decoded_host \<noteq> []" and "last decoded_host \<noteq> CHR ''.''"
    by (simp_all add: decoded_host_def)
  then have safe: "walk_safe (strings_ToLower literal_lib (Path (http_url ''www.xn--bcher-kva.de'' [])))
      (normal_host literal_lib (http_url ''www.xn--bcher-kva.de'' []))"
    by (simp add: normal_host_idn http_url_sel low walk_safe_def)
  have "\<exists>tally. MatchingRules literal_lib (URLMatcher_of literal_lib [idn_rule])
            (http_url ''www.xn--bcher-kva.de'' []) = Inr tally \<and> tally idn_rule = None"
    using MatchingRules_fragment [OF URLMatcher_of_well_formed idn_rule_registered safe]
      idn_key_not_tried
    by (simp add: normal_host_idn http_url_sel low)
  then show ?thesis
    using idn_rule_registered by auto
qed

subsection \<open>The panic of the walk\<close>

lemma normal_host_empty: "Host u = [] \<Longrightarrow> normal_host l u = []"
  by (simp add: normal_host_def strings_ToLower_def is_ascii_def strip_port_def strings_LastIndex_def
      decode_idn_def)

text \<open>
  On a URL with an empty host and an empty path, as an opaque URL like
  \<^verbatim>\<open>mailto:someone\<close> has them, the walk starts from the empty string, and
  \<^verbatim>\<open>MatchingRules\<close> panics on the slice \<^verbatim>\<open>s2[:len(s2)-1]\<close>.
\<close>

theorem MatchingRules_panics_without_host_and_path:
  assumes "Host u = []" and "Path u = []"
  shows "MatchingRules l m u = Inl SliceBoundsOutOfRange"
  using assms
  by (simp add: MatchingRules_def normal_host_empty strings_ToLower_def is_ascii_def domain_walk.simps
      path_walk_empty)

text \<open>The panic on the URL \<^verbatim>\<open>mailto:someone\<close>, in the matcher with one rule.\<close>

theorem MatchingRules_panics_without_host_and_path_witness:
  "MatchingRules literal_lib (URLMatcher_of literal_lib [sub_rule])
     \<lparr>Scheme = ''mailto'', Host = [], Path = [], RawQuery = []\<rparr> = Inl SliceBoundsOutOfRange"
  using MatchingRules_panics_without_host_and_path
    [of "\<lparr>Scheme = ''mailto'', Host = [], Path = [], RawQuery = []\<rparr>" literal_lib
        "URLMatcher_of literal_lib [sub_rule]"]
  by simp

text \<open>
  The same panic on a host that ends in a dot, with an empty path: after the last label
  the walk goes on with the empty string. The rule \<^verbatim>\<open>bad.com.\<close> has been looked up
  and found by then, and the tally is lost with the panic.
\<close>

lemma trailing_dot_panics:
  "MatchingRules literal_lib (URLMatcher_of literal_lib [bad_rule\<lparr>content := ''bad.com.''\<rparr>])
     (http_url ''sub.bad.com.'' []) = Inl SliceBoundsOutOfRange"
proof -
  have host: "normal_host literal_lib (http_url ''sub.bad.com.'' []) = ''sub.bad.com.''"
    using plain_host_normal [of literal_lib "http_url ''sub.bad.com.'' []"]
    by (simp add: http_url_sel plain_host_def strings_ToLower_def is_ascii_def lower_byte_def)
  have walk: "domain_walk fr [] ''sub.bad.com.'' result = Inl SliceBoundsOutOfRange" for fr result
    by (simp add: domain_walk.simps path_walk.simps strings_Index_def strings_LastIndex_def)
  show ?thesis
    by (simp add: MatchingRules_def host http_url_sel strings_ToLower_def is_ascii_def walk)
qed

end
